theory Spec2Isabelle
  imports Complex_Main
begin

section \<open>JavaScript primitives used by the controllers\<close>

text \<open>
  Strings are character lists. \<open>toUpperCase\<close> is \<open>String.prototype.toUpperCase\<close> on strings
  of ASCII characters: there it replaces \<open>a\<close> .. \<open>z\<close> by \<open>A\<close> .. \<open>Z\<close> and leaves every
  other character as it is. Beyond ASCII the JavaScript function follows the Unicode
  case mappings, which a list of 8-bit characters cannot express; every statement
  below that depends on \<open>toUpperCase\<close> is about ASCII strings (\<open>ascii\<close>), which is where
  the option tokens of the question list live (\<open>A\<close> .. \<open>D\<close>). \<open>String_nat\<close> is \<open>String(n)\<close>
  for a non-negative integer, its decimal numeral.
\<close>

definition toUpperCase_char :: "char \<Rightarrow> char" where
  "toUpperCase_char c =
     (let n = (of_char c :: nat) in if 97 \<le> n \<and> n \<le> 122 then char_of (n - 32) else c)"

definition toUpperCase :: "string \<Rightarrow> string" where
  "toUpperCase s = map toUpperCase_char s"

definition ascii :: "string \<Rightarrow> bool" where
  "ascii s = list_all (\<lambda>c. (of_char c :: nat) < 128) s"

fun String_nat :: "nat \<Rightarrow> string" where
  "String_nat n =
     (if n < 10 then [char_of (48 + n)]
      else String_nat (n div 10) @ [char_of (48 + n mod 10)])"

declare String_nat.simps [simp del]

text \<open>
  \<open>x || ''\<close> on a property read: a missing key (\<open>undefined\<close>) and the empty string are
  both falsy and give the empty string.
\<close>

definition or_empty :: "string option \<Rightarrow> string" where
  "or_empty v = (case v of None \<Rightarrow> [] | Some s \<Rightarrow> (if s = [] then [] else s))"

text \<open>
  \<open>Math.round\<close> rounds to the nearest integer, a tie going up. The argument is kept as
  an exact rational: for the five-question list the quotients \<open>k / 5 * 100\<close> are the
  integers 0, 20, .., 100 in double precision as well.
\<close>

definition Math_round :: "rat \<Rightarrow> int" where
  "Math_round x = \<lfloor>x + 1 / 2\<rfloor>"

section \<open>The question list of the multiple-choice interview\<close>

record answer_option =
  o_id :: string
  o_text :: string

record question =
  q_id :: nat
  q_text :: string
  q_options :: "answer_option list"
  q_correct :: string

definition QUESTIONS :: "question list" where
  "QUESTIONS =
   [\<lparr>q_id = 1,
     q_text = ''How do you prioritize tasks when you have multiple deadlines at the same time?'',
     q_options =
      [\<lparr>o_id = ''A'', o_text = ''Work on the easiest task first to build momentum''\<rparr>,
       \<lparr>o_id = ''B'', o_text = ''Prioritize by deadline and impact, tackle the most critical first''\<rparr>,
       \<lparr>o_id = ''C'', o_text = ''Ask your manager to decide the priority for you''\<rparr>,
       \<lparr>o_id = ''D'', o_text = ''Work on all tasks simultaneously to show multitasking ability''\<rparr>],
     q_correct = ''B''\<rparr>,
    \<lparr>q_id = 2,
     q_text = ''A team member disagrees with your approach on an important project. How do you handle it?'',
     q_options =
      [\<lparr>o_id = ''A'', o_text = ''Ignore their feedback and proceed with your original plan''\<rparr>,
       \<lparr>o_id = ''B'', o_text = ''Immediately adopt their suggestion without discussion''\<rparr>,
       \<lparr>o_id = ''C'', o_text = ''Schedule a discussion to understand their perspective and find common ground''\<rparr>,
       \<lparr>o_id = ''D'', o_text = ''Escalate to your manager to make the final call''\<rparr>],
     q_correct = ''C''\<rparr>,
    \<lparr>q_id = 3,
     q_text = ''You realize mid-project that the initial requirements were unclear and the deliverable may miss the mark. What do you do?'',
     q_options =
      [\<lparr>o_id = ''A'', o_text = ''Complete the project as planned and hope it meets expectations''\<rparr>,
       \<lparr>o_id = ''B'', o_text = ''Immediately communicate the issue to stakeholders and realign on requirements''\<rparr>,
       \<lparr>o_id = ''C'', o_text = ''Restart the project from scratch without informing anyone''\<rparr>,
       \<lparr>o_id = ''D'', o_text = ''Submit the work and wait for feedback before making changes''\<rparr>],
     q_correct = ''B''\<rparr>,
    \<lparr>q_id = 4,
     q_text = ''How do you respond when you receive critical feedback about your work from a supervisor?'',
     q_options =
      [\<lparr>o_id = ''A'', o_text = ''Defend your work and explain why the feedback is wrong''\<rparr>,
       \<lparr>o_id = ''B'', o_text = ''Feel discouraged and avoid taking similar tasks in future''\<rparr>,
       \<lparr>o_id = ''C'', o_text = ''Listen actively, ask clarifying questions, and create an action plan to improve''\<rparr>,
       \<lparr>o_id = ''D'', o_text = ''Agree outwardly but make no changes to your approach''\<rparr>],
     q_correct = ''C''\<rparr>,
    \<lparr>q_id = 5,
     q_text = ''You are assigned a task that requires a skill you do not currently have. What is your approach?'',
     q_options =
      [\<lparr>o_id = ''A'', o_text = ''Decline the task as it is outside your current skillset''\<rparr>,
       \<lparr>o_id = ''B'', o_text = ''Accept the task, proactively learn the skill, and ask for guidance if needed''\<rparr>,
       \<lparr>o_id = ''C'', o_text = ''Complete the task using only what you already know, even if quality suffers''\<rparr>,
       \<lparr>o_id = ''D'', o_text = ''Pass the task to a colleague without informing your manager''\<rparr>],
     q_correct = ''B''\<rparr>]"

section \<open>Scoring\<close>

text \<open>
  \<open>_scoreAnswers\<close> maps over \<open>QUESTIONS\<close> with a callback that also counts the matches in
  a variable of the enclosing function; the model threads that counter and the rows
  built so far through the list, in list order.
\<close>

record result_row =
  r_id :: nat
  r_text :: string
  r_options :: "answer_option list"
  r_selected :: string
  r_correct :: string
  r_is_correct :: bool

record score_report =
  score :: nat
  total_count :: nat
  percentage :: int
  grade :: string
  results :: "result_row list"

type_synonym answer_record = "string \<rightharpoonup> string"

definition selected_of :: "answer_record \<Rightarrow> question \<Rightarrow> string" where
  "selected_of answers q = toUpperCase (or_empty (answers (String_nat (q_id q))))"

definition score_row :: "answer_record \<Rightarrow> question \<Rightarrow> result_row" where
  "score_row answers q =
     (let selected = selected_of answers q;
          is_correct = (selected = q_correct q)
      in \<lparr>r_id = q_id q, r_text = q_text q, r_options = q_options q,
          r_selected = selected, r_correct = q_correct q, r_is_correct = is_correct\<rparr>)"

fun score_loop :: "answer_record \<Rightarrow> question list \<Rightarrow> nat \<times> result_row list \<Rightarrow> nat \<times> result_row list" where
  "score_loop answers [] acc = acc"
| "score_loop answers (q # qs) (n, rows) =
     (let row = score_row answers q
      in score_loop answers qs ((if r_is_correct row then n + 1 else n), rows @ [row]))"

definition grade_of :: "int \<Rightarrow> string" where
  "grade_of p =
     (if p \<ge> 80 then ''Excellent''
      else if p \<ge> 60 then ''Good''
      else if p \<ge> 40 then ''Average''
      else ''Needs Improvement'')"

definition scoreAnswers :: "answer_record \<Rightarrow> score_report" where
  "scoreAnswers answers =
     (let (sc, rows) = score_loop answers QUESTIONS (0, []);
          tot = length QUESTIONS;
          pct = Math_round (of_nat sc / of_nat tot * 100)
      in \<lparr>score = sc, total_count = tot, percentage = pct, grade = grade_of pct, results = rows\<rparr>)"

section \<open>The avatar session (AvatarManager)\<close>

text \<open>
  The synthesizer and the peer connection belong to the speech SDK and the browser. The
  model keeps what the class keeps: whether each handle is set, and the two flags. A
  method returns the new object state together with what it did, in order: the
  callbacks it invoked, the SDK calls it made, and how it settled the promise it
  returned. The SDK reports the end of a \<open>speakTextAsync\<close> request through one of the two
  callbacks handed to it (\<open>speak_callback\<close>); \<open>close\<close> may throw.
\<close>

datatype handle = Handle

record avatar =
  synthesizer :: "handle option"
  peerConn :: "handle option"
  isConnected :: bool
  isSpeaking :: bool

datatype av_effect =
    OnConnected
  | OnDisconnected
  | OnSpeakStart
  | OnSpeakEnd
  | NewPeerConnection "string list" string string
  | NewSynthesizer string string
  | StartAvatarAsync
  | SpeakTextAsync string
  | SynthesizerClose
  | PeerConnClose
  | ConsoleLog string
  | ConsoleError string
  | Resolve
  | Reject string

definition new_AvatarManager :: avatar where
  "new_AvatarManager =
     \<lparr>synthesizer = None, peerConn = None, isConnected = False, isSpeaking = False\<rparr>"

definition speak :: "string \<Rightarrow> avatar \<Rightarrow> avatar \<times> av_effect list" where
  "speak txt a =
     (if synthesizer a = None \<or> \<not> isConnected a
      then (a, [Reject ''Avatar is not connected. Call connect() first.''])
      else (a\<lparr>isSpeaking := True\<rparr>, [OnSpeakStart, SpeakTextAsync txt]))"

text \<open>
  What the SDK hands to the callbacks: a result with its reason (the reason code when it
  is not \<open>SynthesizingAudioCompleted\<close>) and its error details, or an error.
\<close>

datatype result_reason = SynthesizingAudioCompleted | OtherReason nat

datatype sdk_callback =
    SdkResult result_reason "string option"
  | SdkError string

definition failure_message :: "nat \<Rightarrow> string option \<Rightarrow> string" where
  "failure_message code details =
     ''Speech synthesis failed (reason '' @ String_nat code @ ''): '' @
       (if or_empty details = [] then ''unknown error'' else or_empty details)"

definition speak_callback :: "sdk_callback \<Rightarrow> avatar \<Rightarrow> avatar \<times> av_effect list" where
  "speak_callback cb a =
     (case cb of
        SdkResult SynthesizingAudioCompleted details \<Rightarrow>
          (a\<lparr>isSpeaking := False\<rparr>, [OnSpeakEnd, Resolve])
      | SdkResult (OtherReason code) details \<Rightarrow>
          (a\<lparr>isSpeaking := False\<rparr>,
           [OnSpeakEnd, ConsoleError (failure_message code details),
            Reject (failure_message code details)])
      | SdkError err \<Rightarrow>
          (a\<lparr>isSpeaking := False\<rparr>, [OnSpeakEnd, ConsoleError err, Reject err]))"

text \<open>
  \<open>disconnect\<close>: each \<open>close\<close> sits in its own \<open>try\<close> with an empty \<open>catch\<close>. The two
  arguments say what the SDK's and the browser's \<open>close\<close> do when called: return, or
  throw the given message.
\<close>

definition try_ignore :: "string + unit \<Rightarrow> unit" where
  "try_ignore r = (case r of Inl err \<Rightarrow> () | Inr u \<Rightarrow> u)"

definition disconnect ::
  "string + unit \<Rightarrow> string + unit \<Rightarrow> avatar \<Rightarrow> string + avatar \<times> av_effect list" where
  "disconnect synth_close pc_close a =
     (let (a1, e1) =
            (case synthesizer a of
               None \<Rightarrow> (a, [])
             | Some h \<Rightarrow>
                 (let u = try_ignore synth_close
                  in (a\<lparr>synthesizer := None\<rparr>, [SynthesizerClose])));
          (a2, e2) =
            (case peerConn a1 of
               None \<Rightarrow> (a1, [])
             | Some h \<Rightarrow>
                 (let u = try_ignore pc_close
                  in (a1\<lparr>peerConn := None\<rparr>, [PeerConnClose])))
      in Inr (a2\<lparr>isConnected := False\<rparr>,
              e1 @ e2 @ [ConsoleLog ''[AvatarManager] Disconnected.'']))"

text \<open>
  \<open>connect\<close>: the relay credentials arrive as text and are parsed first; \<open>JSON.parse\<close>
  and \<open>startAvatarAsync\<close> are the browser's and the SDK's, so what they return is an
  argument (\<open>Inl\<close> the message of what they throw). The result carries the object state
  at the point where \<open>connect\<close> ended, what it did, and the error it threw, if any.
\<close>

record ice_json =
  Urls :: "string + string list"
  Username :: string
  Password :: string

definition connect ::
  "(string \<Rightarrow> string + ice_json) \<Rightarrow> string + unit \<Rightarrow> string \<Rightarrow> string \<Rightarrow> string \<Rightarrow> avatar
     \<Rightarrow> avatar \<times> av_effect list \<times> string option" where
  "connect JSON_parse startAvatar speechToken region iceTokenRaw a =
     (case JSON_parse iceTokenRaw of
        Inl err \<Rightarrow> (a, [], Some err)
      | Inr ice \<Rightarrow>
          (let iceUrls = (case Urls ice of Inl u \<Rightarrow> [u] | Inr us \<Rightarrow> us);
               a1 = a\<lparr>peerConn := Some Handle\<rparr>;
               a2 = a1\<lparr>synthesizer := Some Handle\<rparr>;
               es = [NewPeerConnection iceUrls (Username ice) (Password ice),
                     NewSynthesizer speechToken region, StartAvatarAsync]
           in (case startAvatar of
                 Inl err \<Rightarrow> (a2, es, Some err)
               | Inr u \<Rightarrow>
                   (a2\<lparr>isConnected := True\<rparr>,
                    es @ [OnConnected, ConsoleLog ''[AvatarManager] Connected successfully.''],
                    None))))"

section \<open>The multiple-choice controller (InterviewController)\<close>

text \<open>
  The controller is asynchronous code on a single thread: a function runs until its
  next \<open>await\<close>, and the rest of it runs when the awaited promise settles. The model is
  an event system. The state holds the fields of the controller object, the part of
  the page the controller reads or writes back (the option buttons with the answer
  their click listener carries, the status indicators, the loading overlay, the
  results view), and what is outstanding: one entry per \<open>Promise.race\<close> of a speak
  request against its timer, and the number of running 700 ms delays. An event is one
  thing the browser or the SDK does next: a click on an option button, a callback of
  the SDK for a speak request, a timer firing, a change of the connection state. Texts
  that are only displayed (badge, question text, progress bar) are left out.
\<close>

datatype status_label =
    LabelInitial
  | LabelReady
  | LabelDisconnected
  | LabelSpeaking
  | LabelReadySelect
  | LabelSelect
  | LabelListening

datatype loading_text =
    LoadingInitial
  | LoadingConnecting
  | LoadingInitialising
  | LoadingWarning string
  | LoadingReconnecting

record option_button =
  b_questionId :: nat
  b_optionId :: string
  b_disabled :: bool
  b_selected :: bool

datatype race_kind =
    RWelcome
  | RQuestion nat
  | RFinishWait
  | RFinishResult score_report

record 'k race =
  rc_kind :: 'k
  rc_open :: bool
  rc_speaking :: bool
  rc_timer :: bool

datatype action =
    Fetch string
  | AskQuestion nat
  | FinishInterview
  | Accepted nat string
  | ListenStart nat
  | Av av_effect
  | ConsoleWarn string
  | ConsoleErr string

record ctl =
  questions :: "question list"
  currentIdx :: nat
  answers :: answer_record
  answerLocked :: bool
  avatar :: "avatar option"
  region :: string
  close_throws :: "(string + unit) \<times> (string + unit)"
  loadingText :: loading_text
  loadingHidden :: bool
  retryButton :: bool
  reconnectOverlay :: bool
  buttons :: "option_button list"
  dot :: string
  statusLabel :: status_label
  hint :: bool
  resultsShown :: "score_report option"
  races :: "race_kind race list"
  pendingAdvances :: nat
  log :: "action list"

definition constructor :: "(string + unit) \<times> (string + unit) \<Rightarrow> string option \<Rightarrow> ctl" where
  "constructor closes SPEECH_REGION =
     \<lparr>questions = QUESTIONS, currentIdx = 0, answers = Map.empty, answerLocked = True,
      avatar = None,
      region = (if or_empty SPEECH_REGION = [] then ''eastus2'' else or_empty SPEECH_REGION),
      close_throws = closes, loadingText = LoadingInitial,
      loadingHidden = False, retryButton = False, reconnectOverlay = False, buttons = [],
      dot = [], statusLabel = LabelInitial, hint = False, resultsShown = None, races = [],
      pendingAdvances = 0, log = []\<rparr>"

definition logged :: "action \<Rightarrow> ctl \<Rightarrow> ctl" where
  "logged a s = s\<lparr>log := log s @ [a]\<rparr>"

subsection \<open>Page helpers and the avatar's callbacks\<close>

definition setOptionsEnabled :: "bool \<Rightarrow> ctl \<Rightarrow> ctl" where
  "setOptionsEnabled enabled s =
     s\<lparr>buttons := map (\<lambda>b. b\<lparr>b_disabled := \<not> enabled\<rparr>) (buttons s)\<rparr>"

definition setDot :: "string \<Rightarrow> ctl \<Rightarrow> ctl" where
  "setDot st s = s\<lparr>dot := st\<rparr>"

definition setStatusLabel :: "status_label \<Rightarrow> ctl \<Rightarrow> ctl" where
  "setStatusLabel l s = s\<lparr>statusLabel := l\<rparr>"

definition setHint :: "bool \<Rightarrow> ctl \<Rightarrow> ctl" where
  "setHint v s = s\<lparr>hint := v\<rparr>"

definition onConnected :: "ctl \<Rightarrow> ctl" where
  "onConnected s = setStatusLabel LabelReady (setDot ''connected'' (s\<lparr>loadingHidden := True\<rparr>))"

definition onDisconnected :: "ctl \<Rightarrow> ctl" where
  "onDisconnected s =
     (setStatusLabel LabelDisconnected (setDot [] s))\<lparr>reconnectOverlay := True\<rparr>"

definition onSpeakStart :: "ctl \<Rightarrow> ctl" where
  "onSpeakStart s =
     setHint True (setStatusLabel LabelSpeaking (setDot ''speaking''
       (setOptionsEnabled False (s\<lparr>answerLocked := True\<rparr>))))"

definition onSpeakEnd :: "ctl \<Rightarrow> ctl" where
  "onSpeakEnd s =
     setHint False (setStatusLabel LabelReadySelect (setDot ''connected''
       (setOptionsEnabled True (s\<lparr>answerLocked := False\<rparr>))))"

definition unlockOptions :: "ctl \<Rightarrow> ctl" where
  "unlockOptions s =
     setHint False (setStatusLabel LabelSelect (setDot ''connected''
       (setOptionsEnabled True (s\<lparr>answerLocked := False\<rparr>))))"

definition callback :: "av_effect \<Rightarrow> ctl \<Rightarrow> ctl" where
  "callback e s =
     (case e of
        OnConnected \<Rightarrow> onConnected s
      | OnDisconnected \<Rightarrow> onDisconnected s
      | OnSpeakStart \<Rightarrow> onSpeakStart s
      | OnSpeakEnd \<Rightarrow> onSpeakEnd s
      | _ \<Rightarrow> s)"

fun run_effects :: "av_effect list \<Rightarrow> ctl \<Rightarrow> ctl" where
  "run_effects [] s = s"
| "run_effects (e # es) s = run_effects es (callback e (logged (Av e) s))"

fun settlement :: "av_effect list \<Rightarrow> (string + unit) option" where
  "settlement [] = None"
| "settlement (Resolve # es) = Some (Inr ())"
| "settlement (Reject m # es) = Some (Inl m)"
| "settlement (e # es) = settlement es"

subsection \<open>A speak request raced against its timer\<close>

text \<open>
  \<open>Promise.race([this.avatar.speak(text), timeout])\<close>. The request either is refused at
  once (the result is the rejection message) or is outstanding. The timer is created
  in either case; nothing clears it, and nothing cancels the request when the timer
  wins.
\<close>

definition add_race :: "race_kind race \<Rightarrow> ctl \<Rightarrow> ctl" where
  "add_race r s = s\<lparr>races := races s @ [r]\<rparr>"

text \<open>
  With no avatar object the call itself throws. The welcome and the question create
  their timer before that call, the two closing utterances after it.
\<close>

definition timer_first :: "race_kind \<Rightarrow> bool" where
  "timer_first kind = (case kind of RWelcome \<Rightarrow> True | RQuestion idx \<Rightarrow> True | _ \<Rightarrow> False)"

definition bounded_speak :: "race_kind \<Rightarrow> string \<Rightarrow> ctl \<Rightarrow> ctl \<times> string option" where
  "bounded_speak kind txt s =
     (case avatar s of
        None \<Rightarrow>
          (add_race \<lparr>rc_kind = kind, rc_open = False, rc_speaking = False,
                     rc_timer = timer_first kind\<rparr> s,
           Some ''TypeError: this.avatar is null'')
      | Some a \<Rightarrow>
          (let (a', es) = speak txt a;
               s1 = run_effects es (s\<lparr>avatar := Some a'\<rparr>)
           in (case settlement es of
                 Some (Inl err) \<Rightarrow>
                   (add_race \<lparr>rc_kind = kind, rc_open = False, rc_speaking = False,
                              rc_timer = True\<rparr> s1, Some err)
               | _ \<Rightarrow>
                   (add_race \<lparr>rc_kind = kind, rc_open = True, rc_speaking = True,
                              rc_timer = True\<rparr> s1, None))))"

subsection \<open>Finishing\<close>

definition waitText :: string where
  "waitText = ''Thank you for completing the interview. '' @
              ''Please wait a moment while I calculate your results.''"

definition resultText :: "score_report \<Rightarrow> string" where
  "resultText d =
     ''You scored '' @ String_nat (score d) @ '' out of '' @ String_nat (total_count d) @ '', '' @
     ''which is '' @ String_nat (nat (percentage d)) @ '' percent. '' @
     ''Your grade is '' @ grade d @ ''. '' @
     ''Well done on completing the interview!''"

definition finish_show :: "score_report \<Rightarrow> ctl \<Rightarrow> ctl" where
  "finish_show d s =
     (let s1 = s\<lparr>resultsShown := Some d\<rparr>
      in (case avatar s1 of
            None \<Rightarrow> s1
          | Some a \<Rightarrow>
              (case disconnect (fst (close_throws s1)) (snd (close_throws s1)) a of
                 Inl err \<Rightarrow> s1
               | Inr (a', es) \<Rightarrow> run_effects es (s1\<lparr>avatar := Some a'\<rparr>))))"

definition finish_score :: "ctl \<Rightarrow> ctl" where
  "finish_score s =
     (let d = scoreAnswers (answers s);
          (s1, r) = bounded_speak (RFinishResult d) (resultText d) s
      in (case r of None \<Rightarrow> s1 | Some err \<Rightarrow> finish_show d s1))"

definition finishInterview :: "ctl \<Rightarrow> ctl" where
  "finishInterview s =
     (let s1 = (setOptionsEnabled False (logged FinishInterview s))\<lparr>buttons := []\<rparr>;
          (s2, r) = bounded_speak RFinishWait waitText s1
      in (case r of None \<Rightarrow> s2 | Some err \<Rightarrow> finish_score s2))"

subsection \<open>Asking a question\<close>

fun join :: "string \<Rightarrow> string list \<Rightarrow> string" where
  "join sep [] = []"
| "join sep [x] = x"
| "join sep (x # y # ys) = x @ sep @ join sep (y # ys)"

definition question_speech :: "nat \<Rightarrow> question \<Rightarrow> string" where
  "question_speech idx q =
     ''Question '' @ String_nat (idx + 1) @ ''. '' @ q_text q @ ''. '' @
     ''The options are. '' @
       join ''. '' (map (\<lambda>oo. ''Option '' @ o_id oo @ '': '' @ o_text oo) (q_options q)) @ ''. '' @
     ''Please select your answer.''"

definition renderQuestion :: "question \<Rightarrow> ctl \<Rightarrow> ctl" where
  "renderQuestion q s =
     s\<lparr>buttons := map (\<lambda>oo. \<lparr>b_questionId = q_id q, b_optionId = o_id oo,
                               b_disabled = True, b_selected = False\<rparr>) (q_options q)\<rparr>"

text \<open>
  The rest of \<open>_askQuestion\<close> after its \<open>await\<close>: the \<open>try\<close> block ends when the race is
  fulfilled, and the \<open>catch\<close> block warns and unlocks when it is rejected. The result is
  \<open>Inl\<close> for an exception that would leave the function.
\<close>

definition askQuestion_resume :: "string + unit \<Rightarrow> ctl \<Rightarrow> string + ctl" where
  "askQuestion_resume outcome s =
     (case outcome of
        Inr u \<Rightarrow> Inr s
      | Inl err \<Rightarrow> Inr (unlockOptions (logged (ConsoleWarn err) s)))"

definition unhandled :: "string + ctl \<Rightarrow> ctl \<Rightarrow> ctl" where
  "unhandled r s = (case r of Inr s' \<Rightarrow> s' | Inl err \<Rightarrow> logged (ConsoleErr err) s)"

definition askQuestion :: "nat \<Rightarrow> ctl \<Rightarrow> ctl" where
  "askQuestion idx s0 =
     (let s = logged (AskQuestion idx) s0
      in if idx \<ge> length (questions s) then finishInterview s
         else
           (let s1 = s\<lparr>currentIdx := idx, answerLocked := True\<rparr>;
                q = questions s1 ! idx;
                s2 = setOptionsEnabled False (renderQuestion q s1);
                (s3, r) = bounded_speak (RQuestion idx) (question_speech idx q) s2
            in (case r of
                  None \<Rightarrow> s3
                | Some err \<Rightarrow> unhandled (askQuestion_resume (Inl err) s3) s3)))"

definition welcomeText :: string where
  "welcomeText =
     ''Hello! Welcome to your behavioral interview. '' @
     ''I will ask you five questions. '' @
     ''After I finish speaking each question, the answer options will become active. '' @
     ''Select the option that best reflects your approach. '' @
     ''Let'' @ [CHR 0x27] @ ''s begin.''"

definition startInterview :: "ctl \<Rightarrow> ctl" where
  "startInterview s =
     (let (s1, r) = bounded_speak RWelcome welcomeText s
      in (case r of
            None \<Rightarrow> s1
          | Some err \<Rightarrow> askQuestion 0 (logged (ConsoleWarn err) s1)))"

subsection \<open>Answering\<close>

definition handleAnswer :: "nat \<Rightarrow> string \<Rightarrow> ctl \<Rightarrow> ctl" where
  "handleAnswer questionId optionId s =
     (if answerLocked s then s
      else
        (let s1 = setOptionsEnabled False (s\<lparr>answerLocked := True\<rparr>);
             s2 = s1\<lparr>answers := (answers s1)(String_nat questionId \<mapsto> optionId)\<rparr>;
             s3 = s2\<lparr>buttons := map (\<lambda>b. if b_optionId b = optionId
                                            then b\<lparr>b_selected := True\<rparr> else b) (buttons s2)\<rparr>
         in logged (Accepted questionId optionId) (s3\<lparr>pendingAdvances := pendingAdvances s3 + 1\<rparr>)))"

definition handleAnswer_resume :: "ctl \<Rightarrow> ctl" where
  "handleAnswer_resume s = askQuestion (currentIdx s + 1) s"

subsection \<open>Events\<close>

datatype ice_state = IceNew | IceChecking | IceConnected | IceCompleted
  | IceDisconnected | IceFailed | IceClosed

datatype event =
    Click nat
  | SdkCallback nat sdk_callback
  | TimerFired nat
  | DelayElapsed
  | IceStateChange ice_state

definition close_race :: "nat \<Rightarrow> ctl \<Rightarrow> ctl" where
  "close_race i s = s\<lparr>races := (races s)[i := (races s ! i)\<lparr>rc_open := False\<rparr>]\<rparr>"

text \<open>
  What runs when race \<open>i\<close> settles with \<open>outcome\<close>: the rest of the function that awaits
  it, with the \<open>catch\<close> of that function for a rejection.
\<close>

definition settle :: "nat \<Rightarrow> string + unit \<Rightarrow> ctl \<Rightarrow> ctl" where
  "settle i outcome s =
     (let s1 = close_race i s
      in (case rc_kind (races s ! i) of
            RWelcome \<Rightarrow>
              askQuestion 0 (case outcome of Inl err \<Rightarrow> logged (ConsoleWarn err) s1 | Inr u \<Rightarrow> s1)
          | RQuestion idx \<Rightarrow>
              unhandled (askQuestion_resume outcome s1) s1
          | RFinishWait \<Rightarrow> finish_score s1
          | RFinishResult d \<Rightarrow> finish_show d s1))"

definition on_sdk_callback :: "nat \<Rightarrow> sdk_callback \<Rightarrow> ctl \<Rightarrow> ctl" where
  "on_sdk_callback i cb s =
     (case avatar s of
        None \<Rightarrow> s
      | Some a \<Rightarrow>
          (if i < length (races s) \<and> rc_speaking (races s ! i) then
             (let (a', es) = speak_callback cb a;
                  s1 = s\<lparr>avatar := Some a',
                         races := (races s)[i := (races s ! i)\<lparr>rc_speaking := False\<rparr>]\<rparr>;
                  s2 = run_effects es s1
              in (case settlement es of
                    Some outcome \<Rightarrow> (if rc_open (races s2 ! i) then settle i outcome s2 else s2)
                  | None \<Rightarrow> s2))
           else s))"

definition on_timer :: "nat \<Rightarrow> ctl \<Rightarrow> ctl" where
  "on_timer i s =
     (if i < length (races s) \<and> rc_timer (races s ! i) then
        (let s1 = s\<lparr>races := (races s)[i := (races s ! i)\<lparr>rc_timer := False\<rparr>]\<rparr>
         in if rc_open (races s1 ! i)
            then settle i (Inl (case rc_kind (races s1 ! i) of
                                  RWelcome \<Rightarrow> ''Speech timeout''
                                | RQuestion idx \<Rightarrow> ''Speech timeout''
                                | _ \<Rightarrow> ''timeout'')) s1
            else s1)
      else s)"

definition on_click :: "nat \<Rightarrow> ctl \<Rightarrow> ctl" where
  "on_click j s =
     (if j < length (buttons s) \<and> \<not> b_disabled (buttons s ! j)
      then handleAnswer (b_questionId (buttons s ! j)) (b_optionId (buttons s ! j)) s
      else s)"

definition on_delay :: "ctl \<Rightarrow> ctl" where
  "on_delay s =
     (if pendingAdvances s > 0
      then handleAnswer_resume (s\<lparr>pendingAdvances := pendingAdvances s - 1\<rparr>)
      else s)"

definition on_ice :: "ice_state \<Rightarrow> ctl \<Rightarrow> ctl" where
  "on_ice st s =
     (case avatar s of
        None \<Rightarrow> s
      | Some a \<Rightarrow>
          (if peerConn a = None then s
           else if st = IceDisconnected \<or> st = IceFailed \<or> st = IceClosed
           then run_effects [OnDisconnected] (s\<lparr>avatar := Some (a\<lparr>isConnected := False\<rparr>)\<rparr>)
           else s))"

definition step :: "ctl \<Rightarrow> event \<Rightarrow> ctl" where
  "step s e =
     (case e of
        Click j \<Rightarrow> on_click j s
      | SdkCallback i cb \<Rightarrow> on_sdk_callback i cb s
      | TimerFired i \<Rightarrow> on_timer i s
      | DelayElapsed \<Rightarrow> on_delay s
      | IceStateChange st \<Rightarrow> on_ice st s)"

definition run :: "ctl \<Rightarrow> event list \<Rightarrow> ctl" where
  "run s evs = foldl step s evs"

text \<open>What decides how the interview goes on: the position, the answers, the lock, the
  option buttons and the delays that will advance.\<close>

definition flow :: "ctl \<Rightarrow> nat \<times> answer_record \<times> bool \<times> option_button list \<times> nat" where
  "flow s = (currentIdx s, answers s, answerLocked s, buttons s, pendingAdvances s)"

definition speak_refused :: "ctl \<Rightarrow> bool" where
  "speak_refused s =
     (case avatar s of None \<Rightarrow> True | Some a \<Rightarrow> synthesizer a = None \<or> \<not> isConnected a)"

subsection \<open>Initialisation\<close>

text \<open>
  \<open>init\<close> up to its first wait inside the interview. What the two token requests, the
  parser and the SDK answer is the environment of the call. A request either fails on
  the network or returns a response with its \<open>ok\<close> flag, status, status text and the
  outcome of reading its body. \<open>Promise.all\<close> rejects with the rejection that comes
  first. The page is taken to contain the elements the script looks up by id.
\<close>

datatype fetch_outcome =
    FetchFailed string
  | FetchResponse bool nat string "string + string"

record init_env =
  speechFetch :: fetch_outcome
  iceFetch :: fetch_outcome
  iceRejectsFirst :: bool
  JSON_parse :: "string \<Rightarrow> string + ice_json"
  startAvatar :: "string + unit"

definition token_chain :: "string \<Rightarrow> fetch_outcome \<Rightarrow> string + string" where
  "token_chain what f =
     (case f of
        FetchFailed msg \<Rightarrow> Inl msg
      | FetchResponse ok status statusText body \<Rightarrow>
          (if \<not> ok then Inl (what @ '' token error '' @ String_nat status @ '': '' @ statusText)
           else body))"

definition promise_all2 :: "bool \<Rightarrow> string + 'a \<Rightarrow> string + 'b \<Rightarrow> string + 'a \<times> 'b" where
  "promise_all2 second_first p q =
     (case p of
        Inr a \<Rightarrow> (case q of Inr b \<Rightarrow> Inr (a, b) | Inl e2 \<Rightarrow> Inl e2)
      | Inl e1 \<Rightarrow> (case q of Inr b \<Rightarrow> Inl e1 | Inl e2 \<Rightarrow> Inl (if second_first then e2 else e1)))"

definition setLoadingText :: "loading_text \<Rightarrow> ctl \<Rightarrow> ctl" where
  "setLoadingText t s = s\<lparr>loadingText := t\<rparr>"

definition init_catch :: "string \<Rightarrow> ctl \<Rightarrow> ctl" where
  "init_catch err s =
     (setLoadingText (LoadingWarning (if err = [] then ''Unknown error'' else err))
        (logged (ConsoleErr err) s))\<lparr>retryButton := True\<rparr>"

definition init :: "init_env \<Rightarrow> ctl \<Rightarrow> ctl" where
  "init env s =
     (let s1 = setLoadingText LoadingConnecting s;
          s2 = logged (Fetch ''/api/getIceToken'') (logged (Fetch ''/api/getSpeechToken'') s1)
      in (case promise_all2 (iceRejectsFirst env)
                 (token_chain ''Speech'' (speechFetch env)) (token_chain ''ICE'' (iceFetch env)) of
            Inl err \<Rightarrow> init_catch err s2
          | Inr (speechToken, iceTokenRaw) \<Rightarrow>
              (let s3 = setLoadingText LoadingInitialising (s2\<lparr>avatar := Some new_AvatarManager\<rparr>);
                   (a', es, r) = connect (JSON_parse env) (startAvatar env) speechToken (region s3)
                                   iceTokenRaw new_AvatarManager;
                   s4 = run_effects es (s3\<lparr>avatar := Some a'\<rparr>)
               in (case r of
                     Some err \<Rightarrow> init_catch err s4
                   | None \<Rightarrow> startInterview s4))))"

text \<open>The retry button's click handler: it resets the overlay and calls \<open>init\<close> again.\<close>

definition retry_click :: "init_env \<Rightarrow> ctl \<Rightarrow> ctl" where
  "retry_click env s =
     (if retryButton s
      then init env (s\<lparr>loadingText := LoadingReconnecting, retryButton := False\<rparr>)
      else s)"

text \<open>Names for what the statements below speak about.\<close>

definition settles :: "av_effect \<Rightarrow> bool" where
  "settles e = (case e of Resolve \<Rightarrow> True | Reject m \<Rightarrow> True | _ \<Rightarrow> False)"

text \<open>The question ids that the click listeners of the option buttons carry.\<close>

definition bound_ids :: "ctl \<Rightarrow> nat list" where
  "bound_ids s = map b_questionId (buttons s)"

definition key :: "ctl \<Rightarrow> question list \<times> nat \<times> nat list" where
  "key s = (questions s, currentIdx s, bound_ids s)"

definition buttons_current :: "ctl \<Rightarrow> bool" where
  "buttons_current s = (\<forall>i \<in> set (bound_ids s). i = q_id (questions s ! currentIdx s))"

text \<open>\<open>_askQuestion\<close> up to its call of \<open>speak\<close>.\<close>

definition ask_prep :: "nat \<Rightarrow> ctl \<Rightarrow> ctl" where
  "ask_prep idx s =
     setOptionsEnabled False (renderQuestion (questions s ! idx)
       ((logged (AskQuestion idx) s)\<lparr>currentIdx := idx, answerLocked := True\<rparr>))"

definition mark_done :: "nat \<Rightarrow> ctl \<Rightarrow> ctl" where
  "mark_done i s =
     s\<lparr>races := (races s)[i := (races s ! i)\<lparr>rc_speaking := False, rc_open := False\<rparr>]\<rparr>"

fun asked :: "action list \<Rightarrow> nat list" where
  "asked [] = []"
| "asked (AskQuestion i # xs) = i # asked xs"
| "asked (x # xs) = asked xs"

fun finishes :: "action list \<Rightarrow> nat" where
  "finishes [] = 0"
| "finishes (FinishInterview # xs) = Suc (finishes xs)"
| "finishes (x # xs) = finishes xs"

fun accepted :: "action list \<Rightarrow> (nat \<times> string) list" where
  "accepted [] = []"
| "accepted (Accepted q oid # xs) = (q, oid) # accepted xs"
| "accepted (x # xs) = accepted xs"

text \<open>A state at a glance, and the calls a log holds.\<close>

definition glance ::
  "ctl \<Rightarrow> bool \<times> nat \<times> avatar option \<times> race_kind race list \<times> bool \<times> bool \<times> nat
     \<times> string option list" where
  "glance s =
     (answerLocked s, currentIdx s, avatar s, races s, 0 < length (questions s), speak_refused s,
      pendingAdvances s, map (answers s) [''1'', ''2'', ''3'', ''4'', ''5''])"

definition calls :: "ctl \<Rightarrow> nat list \<times> nat \<times> (nat \<times> string) list" where
  "calls s = (asked (log s), finishes (log s), accepted (log s))"

text \<open>
  What the controller waits for: the races not yet settled and the running delays.
\<close>

definition open_waits :: "ctl \<Rightarrow> nat" where
  "open_waits s = length (filter rc_open (races s)) + pendingAdvances s"

text \<open>
  A callback of the SDK is late when it reports on a speak request whose race the timer
  has already settled: the request is still outstanding and nothing awaits it.
\<close>

definition stale :: "ctl \<Rightarrow> event \<Rightarrow> bool" where
  "stale s e =
     (case e of
        SdkCallback i cb \<Rightarrow>
          i < length (races s) \<and> rc_speaking (races s ! i) \<and> \<not> rc_open (races s ! i)
      | _ \<Rightarrow> False)"

text \<open>A session in which no callback of the SDK is late.\<close>

fun punctual :: "ctl \<Rightarrow> event list \<Rightarrow> bool" where
  "punctual s [] = True"
| "punctual s (e # evs) = (\<not> stale s e \<and> punctual (step s e) evs)"

text \<open>A step issues a speak request when the state after it has more races.\<close>

definition speak_issued :: "ctl \<Rightarrow> ctl \<Rightarrow> bool" where
  "speak_issued s s' = (length (races s) < length (races s'))"

text \<open>None of the races that \<open>s\<close> has is still awaited in \<open>s'\<close>.\<close>

definition earlier_closed :: "ctl \<Rightarrow> ctl \<Rightarrow> bool" where
  "earlier_closed s s' = list_all (\<lambda>r. \<not> rc_open r) (take (length (races s)) (races s'))"

text \<open>
  \<open>s'\<close> has the races of \<open>s\<close>, as they are in \<open>s\<close>, and after them the races of the
  speak requests made since: one that is awaited if the avatar takes the speech, none
  that is awaited if it refuses. The delays are the same.
\<close>

definition speaks_on :: "ctl \<Rightarrow> ctl \<Rightarrow> bool" where
  "speaks_on s s' =
     (take (length (races s)) (races s') = races s
      \<and> length (filter rc_open (drop (length (races s)) (races s'))) =
          (if speak_refused s then 0 else 1)
      \<and> pendingAdvances s' = pendingAdvances s)"

text \<open>At most one wait, and the options locked while there is one.\<close>

definition wait_ok :: "ctl \<Rightarrow> bool" where
  "wait_ok s = (open_waits s \<le> 1 \<and> (0 < open_waits s \<longrightarrow> answerLocked s))"

text \<open>
  Where option tokens are kept: the question list, the tokens that the click listeners
  of the option buttons carry, and the answers. The tokens of the question list are
  \<open>A\<close> .. \<open>D\<close>.
\<close>

definition tok_key :: "ctl \<Rightarrow> question list \<times> string list \<times> answer_record" where
  "tok_key s = (questions s, map b_optionId (buttons s), answers s)"

definition tokens_ok :: "ctl \<Rightarrow> bool" where
  "tokens_ok s =
     (questions s = QUESTIONS
      \<and> list_all (\<lambda>t. t \<in> set [''A'', ''B'', ''C'', ''D'']) (map b_optionId (buttons s))
      \<and> (\<forall>k t. answers s k = Some t \<longrightarrow> t \<in> set [''A'', ''B'', ''C'', ''D'']))"

subsection \<open>A session that starts well\<close>

definition good_env :: init_env where
  "good_env =
     \<lparr>speechFetch = FetchResponse True 200 ''OK'' (Inr ''token''),
      iceFetch = FetchResponse True 200 ''OK'' (Inr ''{}''),
      iceRejectsFirst = False,
      JSON_parse = (\<lambda>t. Inr \<lparr>Urls = Inl ''turn:relay'', Username = ''u'', Password = ''p''\<rparr>),
      startAvatar = Inr ()\<rparr>"

definition boot :: ctl where
  "boot = init good_env (constructor (Inr (), Inr ()) None)"

definition completed :: sdk_callback where
  "completed = SdkResult SynthesizingAudioCompleted None"

text \<open>The welcome has been spoken and question 1 is being spoken.\<close>

definition asking_first :: ctl where
  "asking_first = run boot [SdkCallback 0 completed]"

text \<open>Question 1 has been spoken and the options are open.\<close>

definition awaiting_first :: ctl where
  "awaiting_first = run boot [SdkCallback 0 completed, SdkCallback 1 completed]"

text \<open>
  The speech of question 1 hangs: its 30 s timer fires and unlocks the options, the
  user clicks B, the hanging speech ends within the 700 ms delay, and the user clicks C.
\<close>

definition second_answer :: "event list" where
  "second_answer =
     [SdkCallback 0 completed, TimerFired 1, Click 1, SdkCallback 1 completed, Click 2]"

text \<open>
  The welcome hangs past its bound and ends while question 1 is being spoken; the user
  clicks B at once and the delay ends.
\<close>

definition late_welcome_end :: "event list" where
  "late_welcome_end = [TimerFired 0, SdkCallback 0 completed, Click 1, DelayElapsed]"

text \<open>
  The welcome and the first four questions go as intended: each is spoken to the end,
  then answered by one click.
\<close>

definition first_four :: "event list" where
  "first_four =
     [SdkCallback 0 completed,
      SdkCallback 1 completed, Click 1, DelayElapsed,
      SdkCallback 2 completed, Click 2, DelayElapsed,
      SdkCallback 3 completed, Click 1, DelayElapsed,
      SdkCallback 4 completed, Click 2, DelayElapsed]"

text \<open>
  Then the speech of question 5 hangs: its 30 s timer fires and unlocks the options,
  the user clicks B, the hanging speech ends within the 700 ms delay, the user clicks B
  again, and both delays elapse.
\<close>

definition late_speech_end :: "event list" where
  "late_speech_end =
     first_four @
     [TimerFired 5, Click 1, SdkCallback 5 completed, Click 1, DelayElapsed, DelayElapsed]"

section \<open>The speech-input controller\<close>

text \<open>
  The second controller asks open questions and listens for a spoken answer. It has
  no answer record and no lock: its fields are the question list, the position, the
  avatar, the speech token and the region. Its flow is one chain of awaits, so at any
  time it waits for one thing: a speak request raced against its 30 s timer, the
  promise of \<open>_listenForAnswer\<close>, or the 600 ms delay. The state keeps, as before, what is
  outstanding. How the set-up of a recognizer goes is the SDK's: the state holds a
  script of outcomes, read one per call, and a set-up after the script's end succeeds.
\<close>

record vquestion =
  v_id :: nat
  v_text :: string

definition QUESTIONS_v :: "vquestion list" where
  "QUESTIONS_v =
   [\<lparr>v_id = 1, v_text = ''Tell me about a time you had to manage multiple deadlines. How did you handle it?''\<rparr>,
    \<lparr>v_id = 2, v_text = ''Describe a situation where you disagreed with a team member. What did you do?''\<rparr>,
    \<lparr>v_id = 3, v_text = ''Have you ever realized mid-project that something was going wrong? How did you respond?''\<rparr>,
    \<lparr>v_id = 4, v_text = ''How do you handle critical feedback from a supervisor? Can you give an example?''\<rparr>]"

definition RESPONSES :: "string list" where
  "RESPONSES =
   [''Alright, thank you for sharing that.'',
    ''Got it, I appreciate your response.'',
    ''That'' @ [CHR 0x27] @ ''s a great perspective, thank you.'',
    ''Thank you for your answer.'']"

definition response_for :: "nat \<Rightarrow> string" where
  "response_for idx =
     (if idx < length RESPONSES \<and> RESPONSES ! idx \<noteq> [] then RESPONSES ! idx
      else ''Thank you for your answer.'')"

datatype vrace_kind = VWelcome | VQuestion nat | VAck nat | VClosing

datatype recognizer = NoRecognizer | RecognizerOpen | RecognizerClosed

datatype setup_outcome = SetupOk | ConfigThrows string | RecognizeThrows string

record listen =
  l_idx :: nat
  l_open :: bool
  l_recognizer :: recognizer
  l_timer :: bool
  l_callback :: bool

record vctl =
  questions_v :: "vquestion list"
  currentIdx_v :: nat
  avatar_v :: "avatar option"
  speechToken_v :: "string option"
  region_v :: string
  recognizer_script :: "setup_outcome list"
  close_throws_v :: "(string + unit) \<times> (string + unit)"
  loadingText_v :: loading_text
  loadingHidden_v :: bool
  retryButton_v :: bool
  reconnectOverlay_v :: bool
  dot_v :: string
  statusLabel_v :: status_label
  hint_v :: bool
  micVisible :: bool
  transcript :: string
  finished_v :: bool
  races_v :: "vrace_kind race list"
  listens :: "listen list"
  delays_v :: "nat list"
  log_v :: "action list"

definition constructor_v ::
  "(string + unit) \<times> (string + unit) \<Rightarrow> setup_outcome list \<Rightarrow> string option \<Rightarrow> vctl" where
  "constructor_v closes script SPEECH_REGION =
     \<lparr>questions_v = QUESTIONS_v, currentIdx_v = 0, avatar_v = None, speechToken_v = None,
      region_v = (if or_empty SPEECH_REGION = [] then ''eastus2'' else or_empty SPEECH_REGION),
      recognizer_script = script, close_throws_v = closes, loadingText_v = LoadingInitial,
      loadingHidden_v = False, retryButton_v = False, reconnectOverlay_v = False, dot_v = [],
      statusLabel_v = LabelInitial, hint_v = False, micVisible = False, transcript = [],
      finished_v = False, races_v = [], listens = [], delays_v = [], log_v = []\<rparr>"

definition logged_v :: "action \<Rightarrow> vctl \<Rightarrow> vctl" where
  "logged_v a s = s\<lparr>log_v := log_v s @ [a]\<rparr>"

definition showMic :: "bool \<Rightarrow> vctl \<Rightarrow> vctl" where
  "showMic visible s = s\<lparr>micVisible := visible\<rparr>"

definition showTranscript :: "string \<Rightarrow> vctl \<Rightarrow> vctl" where
  "showTranscript t s = s\<lparr>transcript := t\<rparr>"

definition onConnected_v :: "vctl \<Rightarrow> vctl" where
  "onConnected_v s = s\<lparr>loadingHidden_v := True, dot_v := ''connected'', statusLabel_v := LabelReady\<rparr>"

definition onDisconnected_v :: "vctl \<Rightarrow> vctl" where
  "onDisconnected_v s =
     s\<lparr>dot_v := [], statusLabel_v := LabelDisconnected, reconnectOverlay_v := True\<rparr>"

definition onSpeakStart_v :: "vctl \<Rightarrow> vctl" where
  "onSpeakStart_v s =
     showMic False (s\<lparr>dot_v := ''speaking'', statusLabel_v := LabelSpeaking, hint_v := True\<rparr>)"

definition onSpeakEnd_v :: "vctl \<Rightarrow> vctl" where
  "onSpeakEnd_v s = s\<lparr>dot_v := ''connected'', statusLabel_v := LabelListening, hint_v := False\<rparr>"

definition callback_v :: "av_effect \<Rightarrow> vctl \<Rightarrow> vctl" where
  "callback_v e s =
     (case e of
        OnConnected \<Rightarrow> onConnected_v s
      | OnDisconnected \<Rightarrow> onDisconnected_v s
      | OnSpeakStart \<Rightarrow> onSpeakStart_v s
      | OnSpeakEnd \<Rightarrow> onSpeakEnd_v s
      | _ \<Rightarrow> s)"

fun run_effects_v :: "av_effect list \<Rightarrow> vctl \<Rightarrow> vctl" where
  "run_effects_v [] s = s"
| "run_effects_v (e # es) s = run_effects_v es (callback_v e (logged_v (Av e) s))"

subsection \<open>\<open>_speak\<close>: a speak request raced against 30 s, its failure only logged\<close>

definition add_race_v :: "vrace_kind race \<Rightarrow> vctl \<Rightarrow> vctl" where
  "add_race_v r s = s\<lparr>races_v := races_v s @ [r]\<rparr>"

definition speak_v :: "vrace_kind \<Rightarrow> string \<Rightarrow> vctl \<Rightarrow> vctl \<times> string option" where
  "speak_v kind txt s =
     (case avatar_v s of
        None \<Rightarrow>
          (add_race_v \<lparr>rc_kind = kind, rc_open = False, rc_speaking = False, rc_timer = False\<rparr> s,
           Some ''TypeError: this.avatar is null'')
      | Some a \<Rightarrow>
          (let (a', es) = speak txt a;
               s1 = run_effects_v es (s\<lparr>avatar_v := Some a'\<rparr>)
           in (case settlement es of
                 Some (Inl err) \<Rightarrow>
                   (add_race_v \<lparr>rc_kind = kind, rc_open = False, rc_speaking = False,
                                rc_timer = True\<rparr> s1, Some err)
               | _ \<Rightarrow>
                   (add_race_v \<lparr>rc_kind = kind, rc_open = True, rc_speaking = True,
                                rc_timer = True\<rparr> s1, None))))"

text \<open>The rest of \<open>_speak\<close> after its \<open>await\<close>.\<close>

definition speak_resume :: "string + unit \<Rightarrow> vctl \<Rightarrow> vctl" where
  "speak_resume outcome s =
     (case outcome of Inr u \<Rightarrow> s | Inl err \<Rightarrow> logged_v (ConsoleWarn err) s)"

subsection \<open>The chain of one question, from its end backwards\<close>

text \<open>After the acknowledgement: the 600 ms delay, whose end asks the next question.\<close>

definition ack_done :: "nat \<Rightarrow> vctl \<Rightarrow> vctl" where
  "ack_done idx s = s\<lparr>delays_v := delays_v s @ [idx]\<rparr>"

text \<open>After \<open>_listenForAnswer\<close> has resolved with \<open>userSpeech\<close>.\<close>

definition listen_resume :: "nat \<Rightarrow> string \<Rightarrow> vctl \<Rightarrow> vctl" where
  "listen_resume idx userSpeech s =
     (let s1 = (if userSpeech \<noteq> [] then showTranscript userSpeech s else s);
          (s2, r) = speak_v (VAck idx) (response_for idx) s1
      in (case r of None \<Rightarrow> s2 | Some err \<Rightarrow> ack_done idx (speak_resume (Inl err) s2)))"

definition next_setup :: "vctl \<Rightarrow> setup_outcome" where
  "next_setup s = (case recognizer_script s of [] \<Rightarrow> SetupOk | x # xs \<Rightarrow> x)"

definition listenForAnswer :: "nat \<Rightarrow> vctl \<Rightarrow> vctl" where
  "listenForAnswer idx s0 =
     (let s = s0\<lparr>recognizer_script := tl (recognizer_script s0)\<rparr>
      in (case next_setup s0 of
            SetupOk \<Rightarrow>
              logged_v (ListenStart idx)
                ((showMic True s)\<lparr>listens := listens s @
                   [\<lparr>l_idx = idx, l_open = True, l_recognizer = RecognizerOpen,
                     l_timer = True, l_callback = True\<rparr>]\<rparr>)
          | ConfigThrows err \<Rightarrow>
              listen_resume idx []
                ((showMic False s)\<lparr>listens := listens s @
                   [\<lparr>l_idx = idx, l_open = False, l_recognizer = NoRecognizer,
                     l_timer = False, l_callback = False\<rparr>]\<rparr>)
          | RecognizeThrows err \<Rightarrow>
              listen_resume idx []
                ((showMic False (showMic True s))\<lparr>listens := listens s @
                   [\<lparr>l_idx = idx, l_open = False, l_recognizer = RecognizerOpen,
                     l_timer = True, l_callback = False\<rparr>]\<rparr>)))"

definition closingText :: string where
  "closingText =
     ''That concludes our interview. Thank you for your time and thoughtful responses. '' @
     ''We will be in touch soon. Have a great day!''"

definition closing_done :: "vctl \<Rightarrow> vctl" where
  "closing_done s =
     (case avatar_v s of
        None \<Rightarrow> s
      | Some a \<Rightarrow>
          (case disconnect (fst (close_throws_v s)) (snd (close_throws_v s)) a of
             Inl err \<Rightarrow> s
           | Inr (a', es) \<Rightarrow> (run_effects_v es (s\<lparr>avatar_v := Some a'\<rparr>))\<lparr>finished_v := True\<rparr>))"

definition finishInterview_v :: "vctl \<Rightarrow> vctl" where
  "finishInterview_v s =
     (let s1 = showTranscript [] (showMic False (logged_v FinishInterview s));
          (s2, r) = speak_v VClosing closingText s1
      in (case r of None \<Rightarrow> s2 | Some err \<Rightarrow> closing_done (speak_resume (Inl err) s2)))"

definition question_speech_v :: "nat \<Rightarrow> vquestion \<Rightarrow> string" where
  "question_speech_v idx q = ''Question '' @ String_nat (idx + 1) @ ''. '' @ v_text q"

definition askQuestion_v :: "nat \<Rightarrow> vctl \<Rightarrow> vctl" where
  "askQuestion_v idx s0 =
     (let s = logged_v (AskQuestion idx) s0
      in if idx \<ge> length (questions_v s) then finishInterview_v s
         else
           (let s1 = s\<lparr>currentIdx_v := idx\<rparr>;
                q = questions_v s1 ! idx;
                s2 = showTranscript [] s1;
                (s3, r) = speak_v (VQuestion idx) (question_speech_v idx q) s2
            in (case r of
                  None \<Rightarrow> s3
                | Some err \<Rightarrow> listenForAnswer idx (speak_resume (Inl err) s3))))"

definition welcomeText_v :: string where
  "welcomeText_v =
     ''Hello! Welcome to your behavioral interview. I will ask you four questions. '' @
     ''After I finish speaking each question, the microphone will activate. '' @
     ''Simply speak your answer naturally and I will listen. Let'' @ [CHR 0x27] @ ''s begin.''"

definition startInterview_v :: "vctl \<Rightarrow> vctl" where
  "startInterview_v s =
     (let (s1, r) = speak_v VWelcome welcomeText_v s
      in (case r of None \<Rightarrow> s1 | Some err \<Rightarrow> askQuestion_v 0 (speak_resume (Inl err) s1)))"

subsection \<open>Events of the speech-input controller\<close>

datatype recognition_reason = RecognizedSpeech | OtherRecognition nat

datatype vevent =
    VSdkCallback nat sdk_callback
  | VTimerFired nat
  | RecognizerResult nat recognition_reason string
  | RecognizerError nat string
  | ListenTimer nat
  | VDelayElapsed
  | VIceStateChange ice_state

definition settle_v :: "nat \<Rightarrow> string + unit \<Rightarrow> vctl \<Rightarrow> vctl" where
  "settle_v i outcome s =
     (let s1 = speak_resume outcome
                 (s\<lparr>races_v := (races_v s)[i := (races_v s ! i)\<lparr>rc_open := False\<rparr>]\<rparr>)
      in (case rc_kind (races_v s ! i) of
            VWelcome \<Rightarrow> askQuestion_v 0 s1
          | VQuestion idx \<Rightarrow> listenForAnswer idx s1
          | VAck idx \<Rightarrow> ack_done idx s1
          | VClosing \<Rightarrow> closing_done s1))"

definition on_sdk_callback_v :: "nat \<Rightarrow> sdk_callback \<Rightarrow> vctl \<Rightarrow> vctl" where
  "on_sdk_callback_v i cb s =
     (case avatar_v s of
        None \<Rightarrow> s
      | Some a \<Rightarrow>
          (if i < length (races_v s) \<and> rc_speaking (races_v s ! i) then
             (let (a', es) = speak_callback cb a;
                  s1 = s\<lparr>avatar_v := Some a',
                         races_v := (races_v s)[i := (races_v s ! i)\<lparr>rc_speaking := False\<rparr>]\<rparr>;
                  s2 = run_effects_v es s1
              in (case settlement es of
                    Some outcome \<Rightarrow> (if rc_open (races_v s2 ! i) then settle_v i outcome s2 else s2)
                  | None \<Rightarrow> s2))
           else s))"

definition on_timer_v :: "nat \<Rightarrow> vctl \<Rightarrow> vctl" where
  "on_timer_v i s =
     (if i < length (races_v s) \<and> rc_timer (races_v s ! i) then
        (let s1 = s\<lparr>races_v := (races_v s)[i := (races_v s ! i)\<lparr>rc_timer := False\<rparr>]\<rparr>
         in if rc_open (races_v s1 ! i) then settle_v i (Inl ''timeout'') s1 else s1)
      else s)"

text \<open>
  The three ways the promise of \<open>_listenForAnswer\<close> is resolved after a set-up that went
  well: the result callback, the error callback and the 30 s timer. Each closes the
  recognizer and hides the microphone; the two callbacks clear the timer. \<open>resolve\<close> on
  a promise already resolved does nothing.
\<close>

definition resolve_listen :: "nat \<Rightarrow> string \<Rightarrow> vctl \<Rightarrow> vctl" where
  "resolve_listen j v s =
     (if l_open (listens s ! j)
      then listen_resume (l_idx (listens s ! j)) v
             (s\<lparr>listens := (listens s)[j := (listens s ! j)\<lparr>l_open := False\<rparr>]\<rparr>)
      else s)"

definition on_recognizer_result :: "nat \<Rightarrow> recognition_reason \<Rightarrow> string \<Rightarrow> vctl \<Rightarrow> vctl" where
  "on_recognizer_result j reason txt s =
     (if j < length (listens s) \<and> l_callback (listens s ! j) then
        (let s1 = showMic False
                    (s\<lparr>listens := (listens s)[j := (listens s ! j)
                          \<lparr>l_timer := False, l_recognizer := RecognizerClosed, l_callback := False\<rparr>]\<rparr>)
         in resolve_listen j (if reason = RecognizedSpeech \<and> txt \<noteq> [] then txt else []) s1)
      else s)"

definition on_recognizer_error :: "nat \<Rightarrow> string \<Rightarrow> vctl \<Rightarrow> vctl" where
  "on_recognizer_error j err s =
     (if j < length (listens s) \<and> l_callback (listens s ! j) then
        (let s1 = showMic False
                    (s\<lparr>listens := (listens s)[j := (listens s ! j)
                          \<lparr>l_timer := False, l_recognizer := RecognizerClosed, l_callback := False\<rparr>]\<rparr>)
         in resolve_listen j [] s1)
      else s)"

definition on_listen_timer :: "nat \<Rightarrow> vctl \<Rightarrow> vctl" where
  "on_listen_timer j s =
     (if j < length (listens s) \<and> l_timer (listens s ! j) then
        (let s1 = showMic False
                    (s\<lparr>listens := (listens s)[j := (listens s ! j)
                          \<lparr>l_timer := False, l_recognizer := RecognizerClosed\<rparr>]\<rparr>)
         in resolve_listen j [] s1)
      else s)"

definition on_delay_v :: "vctl \<Rightarrow> vctl" where
  "on_delay_v s =
     (case delays_v s of
        [] \<Rightarrow> s
      | idx # rest \<Rightarrow> askQuestion_v (idx + 1) (s\<lparr>delays_v := rest\<rparr>))"

definition on_ice_v :: "ice_state \<Rightarrow> vctl \<Rightarrow> vctl" where
  "on_ice_v st s =
     (case avatar_v s of
        None \<Rightarrow> s
      | Some a \<Rightarrow>
          (if peerConn a = None then s
           else if st = IceDisconnected \<or> st = IceFailed \<or> st = IceClosed
           then run_effects_v [OnDisconnected] (s\<lparr>avatar_v := Some (a\<lparr>isConnected := False\<rparr>)\<rparr>)
           else s))"

definition step_v :: "vctl \<Rightarrow> vevent \<Rightarrow> vctl" where
  "step_v s e =
     (case e of
        VSdkCallback i cb \<Rightarrow> on_sdk_callback_v i cb s
      | VTimerFired i \<Rightarrow> on_timer_v i s
      | RecognizerResult j reason txt \<Rightarrow> on_recognizer_result j reason txt s
      | RecognizerError j err \<Rightarrow> on_recognizer_error j err s
      | ListenTimer j \<Rightarrow> on_listen_timer j s
      | VDelayElapsed \<Rightarrow> on_delay_v s
      | VIceStateChange st \<Rightarrow> on_ice_v st s)"

definition run_v :: "vctl \<Rightarrow> vevent list \<Rightarrow> vctl" where
  "run_v s evs = foldl step_v s evs"

subsection \<open>Initialisation of the speech-input controller\<close>

definition token_chain_v :: "string \<Rightarrow> fetch_outcome \<Rightarrow> string + string" where
  "token_chain_v what f =
     (case f of
        FetchFailed msg \<Rightarrow> Inl msg
      | FetchResponse ok status statusText body \<Rightarrow>
          (if \<not> ok then Inl (what @ '' token error '' @ String_nat status) else body))"

definition init_catch_v :: "string \<Rightarrow> vctl \<Rightarrow> vctl" where
  "init_catch_v err s =
     (logged_v (ConsoleErr err) s)
       \<lparr>loadingText_v := LoadingWarning (if err = [] then ''Unknown error'' else err),
        retryButton_v := True\<rparr>"

definition init_v :: "init_env \<Rightarrow> vctl \<Rightarrow> vctl" where
  "init_v env s =
     (let s1 = s\<lparr>loadingText_v := LoadingConnecting\<rparr>;
          s2 = logged_v (Fetch ''/api/getIceToken'') (logged_v (Fetch ''/api/getSpeechToken'') s1)
      in (case promise_all2 (iceRejectsFirst env)
                 (token_chain_v ''Speech'' (speechFetch env)) (token_chain_v ''ICE'' (iceFetch env)) of
            Inl err \<Rightarrow> init_catch_v err s2
          | Inr (speechToken, iceTokenRaw) \<Rightarrow>
              (let s3 = s2\<lparr>speechToken_v := Some speechToken, avatar_v := Some new_AvatarManager,
                           loadingText_v := LoadingInitialising\<rparr>;
                   (a', es, r) = connect (JSON_parse env) (startAvatar env) speechToken (region_v s3)
                                   iceTokenRaw new_AvatarManager;
                   s4 = run_effects_v es (s3\<lparr>avatar_v := Some a'\<rparr>)
               in (case r of
                     Some err \<Rightarrow> init_catch_v err s4
                   | None \<Rightarrow> startInterview_v s4))))"

definition boot_v :: vctl where
  "boot_v = init_v good_env (constructor_v (Inr (), Inr ()) [] None)"

text \<open>
  What the controller waits for: the races not yet settled, the listen promises not
  yet resolved, and the running delays.
\<close>

definition open_ops :: "vctl \<Rightarrow> nat" where
  "open_ops s =
     length (filter rc_open (races_v s)) + length (filter l_open (listens s)) + length (delays_v s)"

definition speak_refused_v :: "vctl \<Rightarrow> bool" where
  "speak_refused_v s =
     (case avatar_v s of None \<Rightarrow> True | Some a \<Rightarrow> synthesizer a = None \<or> \<not> isConnected a)"

definition ops :: "vctl \<Rightarrow> vrace_kind race list \<times> listen list \<times> nat list" where
  "ops s = (races_v s, listens s, delays_v s)"

text \<open>\<open>s'\<close> has the requests of \<open>s\<close>, as they are in \<open>s\<close>, and maybe further ones after them.\<close>

definition extends :: "vctl \<Rightarrow> vctl \<Rightarrow> bool" where
  "extends s s' =
     (take (length (races_v s)) (races_v s') = races_v s
      \<and> take (length (listens s)) (listens s') = listens s)"

text \<open>A step issues a request when the state after it has more of them.\<close>

definition issued :: "vctl \<Rightarrow> vctl \<Rightarrow> bool" where
  "issued s s' =
     (length (races_v s) < length (races_v s') \<or> length (listens s) < length (listens s'))"

text \<open>None of the requests that \<open>s\<close> has is still awaited in \<open>s'\<close>.\<close>

definition earlier_settled :: "vctl \<Rightarrow> vctl \<Rightarrow> bool" where
  "earlier_settled s s' =
     (list_all (\<lambda>r. \<not> rc_open r) (take (length (races_v s)) (races_v s'))
      \<and> list_all (\<lambda>l. \<not> l_open l) (take (length (listens s)) (listens s')))"

text \<open>A listen that is not yet resolved has its recognizer open and its 30 s timer running.\<close>

definition listen_ok :: "listen \<Rightarrow> bool" where
  "listen_ok l = (l_open l \<longrightarrow> l_timer l \<and> l_callback l \<and> l_recognizer l = RecognizerOpen)"

definition listens_ok :: "vctl \<Rightarrow> bool" where
  "listens_ok s = list_all listen_ok (listens s)"

definition glance_v ::
  "vctl \<Rightarrow> nat \<times> string \<times> bool \<times> vrace_kind race list \<times> listen list \<times> nat list \<times> bool
     \<times> nat list \<times> nat" where
  "glance_v s =
     (currentIdx_v s, transcript s, micVisible s, races_v s, listens s, delays_v s,
      speak_refused_v s, asked (log_v s), finishes (log_v s))"

text \<open>
  The welcome is spoken, question 1 is spoken, the listen's promise is resolved (here
  with the recognized text), the acknowledgement is spoken and the delay ends.
\<close>

definition one_round :: "string \<Rightarrow> vevent list" where
  "one_round said =
     [VSdkCallback 0 completed, VSdkCallback 1 completed,
      RecognizerResult 0 RecognizedSpeech said, VSdkCallback 2 completed, VDelayElapsed]"

text \<open>The welcome and question 1 are spoken; the controller listens.\<close>

definition listening_first :: vctl where
  "listening_first = run_v boot_v [VSdkCallback 0 completed, VSdkCallback 1 completed]"

subsection \<open>Initialisations that fail\<close>

text \<open>
  The message with which the token phase of \<open>init\<close> fails, if it does: the first
  rejection of the two requests, or else what the parser of the relay credentials
  throws.
\<close>

definition token_failure :: "init_env \<Rightarrow> string option" where
  "token_failure env =
     (case promise_all2 (iceRejectsFirst env)
             (token_chain ''Speech'' (speechFetch env)) (token_chain ''ICE'' (iceFetch env)) of
        Inl err \<Rightarrow> Some err
      | Inr (tok, raw) \<Rightarrow> (case JSON_parse env raw of Inl err \<Rightarrow> Some err | Inr ice \<Rightarrow> None))"

definition token_failure_v :: "init_env \<Rightarrow> string option" where
  "token_failure_v env =
     (case promise_all2 (iceRejectsFirst env)
             (token_chain_v ''Speech'' (speechFetch env)) (token_chain_v ''ICE'' (iceFetch env)) of
        Inl err \<Rightarrow> Some err
      | Inr (tok, raw) \<Rightarrow> (case JSON_parse env raw of Inl err \<Rightarrow> Some err | Inr ice \<Rightarrow> None))"

definition bad_status_env :: init_env where
  "bad_status_env = good_env\<lparr>speechFetch := FetchResponse False 401 ''Unauthorized'' (Inr [])\<rparr>"

definition bad_json_env :: init_env where
  "bad_json_env = good_env\<lparr>JSON_parse := (\<lambda>t. Inl ''Unexpected end of JSON input'')\<rparr>"

section \<open>Scoring: what the report holds\<close>

lemma score_loop_eq:
  "score_loop a qs (n, rows) =
     (n + length (filter (\<lambda>q. selected_of a q = q_correct q) qs), rows @ map (score_row a) qs)"
  by (induction qs arbitrary: n rows) (simp_all add: Let_def score_row_def)

lemma floor_half: "\<lfloor>(of_int n :: rat) + 1 / 2\<rfloor> = n"
  by (simp add: floor_eq_iff)

lemma length_QUESTIONS: "length QUESTIONS = 5"
  by (simp add: QUESTIONS_def)

lemma round_fifths: "Math_round (of_nat k / of_nat 5 * 100) = 20 * int k"
proof -
  have "(of_nat k / of_nat 5 * 100 :: rat) = of_int (20 * int k)" by simp
  then show ?thesis unfolding Math_round_def by (simp only: floor_half)
qed

lemma or_empty_case: "or_empty v = (case v of None \<Rightarrow> [] | Some s \<Rightarrow> s)"
  by (simp add: or_empty_def split: option.splits)

lemma grade_of_iff:
  "(grade_of p = ''Excellent'') = (p \<ge> 80)"
  "(grade_of p = ''Good'') = (60 \<le> p \<and> p < 80)"
  "(grade_of p = ''Average'') = (40 \<le> p \<and> p < 60)"
  "(grade_of p = ''Needs Improvement'') = (p < 40)"
  by (auto simp: grade_of_def)

lemma scoreAnswers_fields:
  "score (scoreAnswers a) = length (filter (\<lambda>q. selected_of a q = q_correct q) QUESTIONS)"
  "total_count (scoreAnswers a) = length QUESTIONS"
  "percentage (scoreAnswers a) =
     Math_round (of_nat (score (scoreAnswers a)) / of_nat (total_count (scoreAnswers a)) * 100)"
  "grade (scoreAnswers a) = grade_of (percentage (scoreAnswers a))"
  "results (scoreAnswers a) = map (score_row a) QUESTIONS"
  by (simp_all add: scoreAnswers_def score_loop_eq Let_def)

lemma toUpperCase_ascii:
  "toUpperCase t =
     map (\<lambda>c. if 97 \<le> (of_char c :: nat) \<and> (of_char c :: nat) \<le> 122
               then char_of ((of_char c :: nat) - 32) else c) t"
  by (simp add: toUpperCase_def toUpperCase_char_def Let_def)

lemma selected_of_case:
  "selected_of a q = toUpperCase (case a (String_nat (q_id q)) of None \<Rightarrow> [] | Some t \<Rightarrow> t)"
  by (simp add: selected_of_def or_empty_case)

lemma score_loop_count:
  "score_loop a qs (n, rows) =
     (n + length (filter r_is_correct (map (score_row a) qs)), rows @ map (score_row a) qs)"
  by (induction qs arbitrary: n rows) (simp_all add: Let_def)

lemma scoreAnswers_count:
  "score (scoreAnswers a) = length (filter r_is_correct (results (scoreAnswers a)))"
  by (simp add: scoreAnswers_def score_loop_count Let_def)

lemma scoreAnswers_columns:
  "map r_id (results (scoreAnswers a)) = map q_id QUESTIONS"
  "map r_text (results (scoreAnswers a)) = map q_text QUESTIONS"
  "map r_options (results (scoreAnswers a)) = map q_options QUESTIONS"
  "map r_correct (results (scoreAnswers a)) = map q_correct QUESTIONS"
  "list_all (\<lambda>row. r_is_correct row = (r_selected row = r_correct row)) (results (scoreAnswers a))"
  by (simp_all add: scoreAnswers_fields(5) score_row_def Let_def o_def list_all_iff)

lemma scoreAnswers_row:
  "i < length QUESTIONS \<Longrightarrow>
     r_selected (results (scoreAnswers a) ! i) = selected_of a (QUESTIONS ! i)
     \<and> r_is_correct (results (scoreAnswers a) ! i) =
         (selected_of a (QUESTIONS ! i) = q_correct (QUESTIONS ! i))"
  by (simp add: scoreAnswers_fields(5) score_row_def Let_def)

lemma all_correct_scenario:
  "(score (scoreAnswers [''1'' \<mapsto> ''B'', ''2'' \<mapsto> ''C'', ''3'' \<mapsto> ''B'', ''4'' \<mapsto> ''C'', ''5'' \<mapsto> ''B'']),
    total_count (scoreAnswers [''1'' \<mapsto> ''B'', ''2'' \<mapsto> ''C'', ''3'' \<mapsto> ''B'', ''4'' \<mapsto> ''C'', ''5'' \<mapsto> ''B'']),
    percentage (scoreAnswers [''1'' \<mapsto> ''B'', ''2'' \<mapsto> ''C'', ''3'' \<mapsto> ''B'', ''4'' \<mapsto> ''C'', ''5'' \<mapsto> ''B'']),
    grade (scoreAnswers [''1'' \<mapsto> ''B'', ''2'' \<mapsto> ''C'', ''3'' \<mapsto> ''B'', ''4'' \<mapsto> ''C'', ''5'' \<mapsto> ''B''])) =
   (5, 5, 100, ''Excellent'')"
  by code_simp

lemma lower_case_scenario:
  "(score (scoreAnswers [''1'' \<mapsto> ''b'', ''2'' \<mapsto> ''c'', ''3'' \<mapsto> ''b'', ''4'' \<mapsto> ''c'', ''5'' \<mapsto> ''b'']),
    percentage (scoreAnswers [''1'' \<mapsto> ''b'', ''2'' \<mapsto> ''c'', ''3'' \<mapsto> ''b'', ''4'' \<mapsto> ''c'', ''5'' \<mapsto> ''b'']),
    grade (scoreAnswers [''1'' \<mapsto> ''b'', ''2'' \<mapsto> ''c'', ''3'' \<mapsto> ''b'', ''4'' \<mapsto> ''c'', ''5'' \<mapsto> ''b'']),
    map r_selected (results (scoreAnswers
      [''1'' \<mapsto> ''b'', ''2'' \<mapsto> ''c'', ''3'' \<mapsto> ''b'', ''4'' \<mapsto> ''c'', ''5'' \<mapsto> ''b'']))) =
   (5, 100, ''Excellent'', [''B'', ''C'', ''B'', ''C'', ''B''])"
  by code_simp

lemma mixed_scenario:
  "(score (scoreAnswers [''1'' \<mapsto> ''b'', ''2'' \<mapsto> ''C'', ''4'' \<mapsto> ''a'']),
    percentage (scoreAnswers [''1'' \<mapsto> ''b'', ''2'' \<mapsto> ''C'', ''4'' \<mapsto> ''a'']),
    grade (scoreAnswers [''1'' \<mapsto> ''b'', ''2'' \<mapsto> ''C'', ''4'' \<mapsto> ''a'']),
    map r_selected (results (scoreAnswers [''1'' \<mapsto> ''b'', ''2'' \<mapsto> ''C'', ''4'' \<mapsto> ''a''])),
    map r_is_correct (results (scoreAnswers [''1'' \<mapsto> ''b'', ''2'' \<mapsto> ''C'', ''4'' \<mapsto> ''a'']))) =
   (2, 40, ''Average'', [''B'', ''C'', [], ''A'', []], [True, True, False, False, False])"
  by code_simp

section \<open>The avatar session: disconnecting and speaking\<close>

text \<open>
  C9. \<open>disconnect\<close> always returns (it never throws, whatever the two \<open>close\<close> calls do),
  leaves the synthesizer and the peer connection unset and \<open>isConnected\<close> false, and a
  second \<open>disconnect\<close> right after it changes nothing in the session state and closes
  nothing: it only writes its log line again.
\<close>

theorem disconnect_idempotent:
  "\<exists>a' es. disconnect sc pc a = Inr (a', es)
     \<and> synthesizer a' = None \<and> peerConn a' = None \<and> \<not> isConnected a'
     \<and> isSpeaking a' = isSpeaking a
     \<and> (\<forall>sc' pc'. disconnect sc' pc' a' = Inr (a', [ConsoleLog ''[AvatarManager] Disconnected.'']))"
  by (auto simp: disconnect_def Let_def split: option.splits prod.splits)

theorem disconnect_idempotent_witness:
  "disconnect (Inl ''already disposed'') (Inl ''InvalidStateError'')
      \<lparr>synthesizer = Some Handle, peerConn = Some Handle, isConnected = True, isSpeaking = True\<rparr>
    = Inr (\<lparr>synthesizer = None, peerConn = None, isConnected = False, isSpeaking = True\<rparr>,
           [SynthesizerClose, PeerConnClose, ConsoleLog ''[AvatarManager] Disconnected.''])
   \<and> disconnect (Inl ''already disposed'') (Inl ''InvalidStateError'')
      \<lparr>synthesizer = None, peerConn = None, isConnected = False, isSpeaking = True\<rparr>
    = Inr (\<lparr>synthesizer = None, peerConn = None, isConnected = False, isSpeaking = True\<rparr>,
           [ConsoleLog ''[AvatarManager] Disconnected.''])"
  using disconnect_idempotent [of "Inl ''already disposed''" "Inl ''InvalidStateError''"
      "\<lparr>synthesizer = Some Handle, peerConn = Some Handle, isConnected = True, isSpeaking = True\<rparr>"]
  by (auto simp: disconnect_def Let_def)

text \<open>
  C10. \<open>speak\<close> on a session without synthesizer or not connected rejects at once,
  leaves the object as it was (\<open>isSpeaking\<close> keeps its value, so it stays false) and
  invokes no callback. Otherwise it sets \<open>isSpeaking\<close>, invokes \<open>onSpeakStart\<close> once and
  then hands the text to the SDK; whichever callback the SDK answers with, \<open>isSpeaking\<close>
  is reset and \<open>onSpeakEnd\<close> is invoked once, before the promise is settled, which is
  the last thing done; the promise is resolved exactly when the result's reason is
  \<open>SynthesizingAudioCompleted\<close>.
\<close>

theorem speak_lifecycle:
  "(synthesizer a = None \<or> \<not> isConnected a \<longrightarrow>
      speak txt a = (a, [Reject ''Avatar is not connected. Call connect() first.'']))
   \<and> (synthesizer a \<noteq> None \<and> isConnected a \<longrightarrow>
        speak txt a = (a\<lparr>isSpeaking := True\<rparr>, [OnSpeakStart, SpeakTextAsync txt])
        \<and> (\<forall>cb. \<exists>rest.
              speak_callback cb (a\<lparr>isSpeaking := True\<rparr>) = (a\<lparr>isSpeaking := False\<rparr>, OnSpeakEnd # rest)
              \<and> count_list rest OnSpeakEnd = 0 \<and> count_list rest OnSpeakStart = 0
              \<and> length (filter settles (OnSpeakEnd # rest)) = 1 \<and> settles (last rest)
              \<and> (last rest = Resolve) = (\<exists>d. cb = SdkResult SynthesizingAudioCompleted d)))"
  by (auto simp: speak_def speak_callback_def settles_def
      split: sdk_callback.splits result_reason.splits)

theorem speak_lifecycle_witness:
  "speak ''Hello'' new_AvatarManager =
     (new_AvatarManager, [Reject ''Avatar is not connected. Call connect() first.''])
   \<and> speak ''Hello''
        \<lparr>synthesizer = Some Handle, peerConn = Some Handle, isConnected = True, isSpeaking = False\<rparr>
      = (\<lparr>synthesizer = Some Handle, peerConn = Some Handle, isConnected = True, isSpeaking = True\<rparr>,
         [OnSpeakStart, SpeakTextAsync ''Hello''])"
  using speak_lifecycle [of new_AvatarManager "''Hello''"]
    speak_lifecycle [of "\<lparr>synthesizer = Some Handle, peerConn = Some Handle, isConnected = True,
      isSpeaking = False\<rparr>" "''Hello''"]
  by (simp add: new_AvatarManager_def)

section \<open>The multiple-choice controller: frames and invariants\<close>

lemmas page_defs = setOptionsEnabled_def setDot_def setStatusLabel_def setHint_def logged_def

lemmas callback_defs = onConnected_def onDisconnected_def onSpeakStart_def onSpeakEnd_def
  unlockOptions_def callback_def

lemma run_invariant:
  assumes "P s" and "\<And>s e. P s \<Longrightarrow> P (step s e)"
  shows "P (run s evs)"
  using assms(1) unfolding run_def
  by (induction evs arbitrary: s) (simp_all add: assms(2))

lemma avatar_same: "avatar s = Some a \<Longrightarrow> s\<lparr>avatar := Some a\<rparr> = s"
  by (cases s) simp

lemma questions_logged [simp]: "questions (logged x s) = questions s"
  by (simp add: logged_def)

lemma logged_fields [simp]:
  "answerLocked (logged x s) = answerLocked s" "answers (logged x s) = answers s"
  "races (logged x s) = races s" "currentIdx (logged x s) = currentIdx s"
  by (simp_all add: logged_def)

lemma close_race_fields [simp]:
  "answerLocked (close_race i s) = answerLocked s" "answers (close_race i s) = answers s"
  "questions (close_race i s) = questions s"
  by (simp_all add: close_race_def)

subsection \<open>The buttons always carry the id of the current question\<close>

lemma key_callback: "key (callback e s) = key s"
  by (cases e) (simp_all add: key_def bound_ids_def callback_defs page_defs o_def)

lemma key_logged: "key (logged x s) = key s"
  by (simp add: key_def bound_ids_def logged_def)

lemma key_run_effects: "key (run_effects es s) = key s"
  by (induction es arbitrary: s) (simp_all add: key_callback key_logged)

lemma key_avatar_upd: "key (s\<lparr>avatar := x\<rparr>) = key s"
  by (simp add: key_def bound_ids_def)

lemma key_races_upd: "key (s\<lparr>races := x\<rparr>) = key s"
  by (simp add: key_def bound_ids_def)

lemma key_bounded_speak: "key (fst (bounded_speak k t s)) = key s"
  by (simp add: bounded_speak_def add_race_def Let_def key_run_effects key_avatar_upd key_races_upd
      split: option.splits prod.splits sum.splits)

lemma buttons_current_key: "key s' = key s \<Longrightarrow> buttons_current s' = buttons_current s"
  by (simp add: key_def buttons_current_def)

lemma key_finish_show: "key (finish_show d s) = key s"
  by (simp add: finish_show_def Let_def key_run_effects split: option.splits sum.splits prod.splits)
     (simp add: key_def bound_ids_def)

lemma key_cleared: "key s' = (questions s, currentIdx s, []) \<Longrightarrow> buttons_current s'"
  by (simp add: key_def buttons_current_def)

lemma key_finish_score: "key (finish_score s) = key s"
proof -
  let ?p = "bounded_speak (RFinishResult (scoreAnswers (answers s)))
        (resultText (scoreAnswers (answers s))) s"
  have "key (fst ?p) = key s" by (rule key_bounded_speak)
  then show ?thesis
    by (simp add: finish_score_def Let_def split_beta key_finish_show split: option.splits)
qed

lemma key_finishInterview: "key (finishInterview s) = (questions s, currentIdx s, [])"
proof -
  let ?s1 = "(setOptionsEnabled False (logged FinishInterview s))\<lparr>buttons := []\<rparr>"
  let ?p = "bounded_speak RFinishWait waitText ?s1"
  have k1: "key ?s1 = (questions s, currentIdx s, [])"
    by (simp add: key_def bound_ids_def page_defs)
  have "key (fst ?p) = key ?s1" by (rule key_bounded_speak)
  then show ?thesis
    by (simp add: finishInterview_def Let_def split_beta key_finish_score k1 split: option.splits)
qed

lemma key_unhandled_resume: "key (unhandled (askQuestion_resume outcome s) s) = key s"
  by (auto simp: askQuestion_resume_def unhandled_def key_def bound_ids_def callback_defs
      page_defs o_def split: sum.splits)

lemma askQuestion_below:
  "idx < length (questions s) \<Longrightarrow>
   askQuestion idx s =
     (case snd (bounded_speak (RQuestion idx) (question_speech idx (questions s ! idx)) (ask_prep idx s)) of
        None \<Rightarrow> fst (bounded_speak (RQuestion idx) (question_speech idx (questions s ! idx)) (ask_prep idx s))
      | Some err \<Rightarrow> unhandled (askQuestion_resume (Inl err)
           (fst (bounded_speak (RQuestion idx) (question_speech idx (questions s ! idx)) (ask_prep idx s))))
           (fst (bounded_speak (RQuestion idx) (question_speech idx (questions s ! idx)) (ask_prep idx s))))"
  unfolding askQuestion_def ask_prep_def Let_def
  by (simp add: split_beta)

lemma askQuestion_beyond:
  "idx \<ge> length (questions s) \<Longrightarrow> askQuestion idx s = finishInterview (logged (AskQuestion idx) s)"
  unfolding askQuestion_def Let_def by simp

lemma buttons_current_ask_prep: "buttons_current (ask_prep idx s)"
  by (simp add: buttons_current_def bound_ids_def ask_prep_def page_defs renderQuestion_def o_def)

lemma buttons_current_askQuestion: "buttons_current (askQuestion idx s)"
proof (cases "idx \<ge> length (questions s)")
  case True
  have "key (finishInterview (logged (AskQuestion idx) s)) = (questions s, currentIdx s, [])"
    by (simp add: key_finishInterview)
  then show ?thesis
    using True by (simp add: askQuestion_beyond key_cleared)
next
  case False
  let ?p = "bounded_speak (RQuestion idx) (question_speech idx (questions s ! idx)) (ask_prep idx s)"
  have k3: "key (fst ?p) = key (ask_prep idx s)" by (rule key_bounded_speak)
  have c3: "buttons_current (fst ?p)"
    by (simp only: buttons_current_key [OF k3] buttons_current_ask_prep)
  have c4: "buttons_current (unhandled (askQuestion_resume (Inl err) (fst ?p)) (fst ?p))" for err
    using c3 buttons_current_key [OF key_unhandled_resume] by blast
  have "buttons_current (case snd ?p of None \<Rightarrow> fst ?p
      | Some err \<Rightarrow> unhandled (askQuestion_resume (Inl err) (fst ?p)) (fst ?p))"
    using c3 c4 by (cases "snd ?p") simp_all
  then show ?thesis
    using False by (simp add: askQuestion_below)
qed

lemma buttons_current_handleAnswer:
  "buttons_current s \<Longrightarrow> buttons_current (handleAnswer q oid s)"
  by (auto simp: handleAnswer_def Let_def buttons_current_def bound_ids_def page_defs)

lemma buttons_current_settle:
  assumes a: "buttons_current s"
  shows "buttons_current (settle i outcome s)"
proof -
  have k: "key (close_race i s) = key s" by (simp add: close_race_def key_races_upd)
  have c: "buttons_current (close_race i s)" using a buttons_current_key [OF k] by simp
  show ?thesis
  proof (cases "rc_kind (races s ! i)")
    case RWelcome
    then show ?thesis by (simp add: settle_def Let_def buttons_current_askQuestion)
  next
    case (RQuestion idx)
    then show ?thesis using c buttons_current_key [OF key_unhandled_resume]
      by (simp add: settle_def Let_def)
  next
    case RFinishWait
    then show ?thesis using c buttons_current_key [OF key_finish_score]
      by (simp add: settle_def Let_def)
  next
    case (RFinishResult d)
    then show ?thesis using c buttons_current_key [OF key_finish_show]
      by (simp add: settle_def Let_def)
  qed
qed

lemma buttons_current_on_sdk_callback:
  assumes "buttons_current s"
  shows "buttons_current (on_sdk_callback i cb s)"
proof (cases "avatar s")
  case None
  then show ?thesis using assms by (simp add: on_sdk_callback_def)
next
  case (Some a)
  obtain a' es where sc: "speak_callback cb a = (a', es)" by (cases "speak_callback cb a")
  let ?s2 = "run_effects es (s\<lparr>avatar := Some a',
                       races := (races s)[i := (races s ! i)\<lparr>rc_speaking := False\<rparr>]\<rparr>)"
  have "key ?s2 = key s" by (simp add: key_run_effects) (simp add: key_def bound_ids_def)
  then have c2: "buttons_current ?s2" using assms buttons_current_key by blast
  show ?thesis using assms Some sc c2 buttons_current_settle [OF c2]
    by (simp add: on_sdk_callback_def Let_def split: option.splits)
qed

lemma buttons_current_on_timer:
  assumes "buttons_current s"
  shows "buttons_current (on_timer i s)"
proof -
  let ?s1 = "s\<lparr>races := (races s)[i := (races s ! i)\<lparr>rc_timer := False\<rparr>]\<rparr>"
  have "key ?s1 = key s" by (simp add: key_races_upd)
  then have c: "buttons_current ?s1" using assms buttons_current_key by blast
  show ?thesis using assms c buttons_current_settle [OF c]
    by (simp add: on_timer_def Let_def)
qed

lemma buttons_current_on_ice:
  assumes "buttons_current s"
  shows "buttons_current (on_ice st s)"
proof -
  have "key (run_effects [OnDisconnected] (s\<lparr>avatar := Some (a\<lparr>isConnected := False\<rparr>)\<rparr>)) = key s" for a
    by (simp only: key_run_effects key_avatar_upd)
  then have "buttons_current (run_effects [OnDisconnected] (s\<lparr>avatar := Some (a\<lparr>isConnected := False\<rparr>)\<rparr>))" for a
    using assms buttons_current_key by blast
  then show ?thesis using assms
    by (simp add: on_ice_def split: option.splits del: run_effects.simps)
qed

lemma buttons_current_step:
  assumes "buttons_current s"
  shows "buttons_current (step s e)"
proof (cases e)
  case (Click j)
  then show ?thesis using assms by (simp add: step_def on_click_def buttons_current_handleAnswer)
next
  case (SdkCallback i cb)
  then show ?thesis using assms by (simp add: step_def buttons_current_on_sdk_callback)
next
  case (TimerFired i)
  then show ?thesis using assms by (simp add: step_def buttons_current_on_timer)
next
  case DelayElapsed
  then show ?thesis using assms
    by (simp add: step_def on_delay_def handleAnswer_resume_def buttons_current_askQuestion)
next
  case (IceStateChange st)
  then show ?thesis using assms by (simp add: step_def buttons_current_on_ice)
qed

lemma buttons_current_startInterview:
  assumes a: "buttons_current s"
  shows "buttons_current (startInterview s)"
proof -
  let ?p = "bounded_speak RWelcome welcomeText s"
  have "key (fst ?p) = key s" by (rule key_bounded_speak)
  then have "buttons_current (fst ?p)" using a buttons_current_key by blast
  then show ?thesis
    by (simp add: startInterview_def split_beta buttons_current_askQuestion split: option.splits)
qed

lemma key_init_catch: "key (init_catch err s) = key s"
  by (simp add: init_catch_def key_def bound_ids_def setLoadingText_def logged_def)

lemma buttons_current_init:
  assumes a: "buttons_current s"
  shows "buttons_current (init env s)"
proof -
  let ?s2 = "logged (Fetch ''/api/getIceToken'') (logged (Fetch ''/api/getSpeechToken'')
      (setLoadingText LoadingConnecting s))"
  have k2: "key ?s2 = key s" by (simp add: key_def bound_ids_def setLoadingText_def logged_def)
  show ?thesis
  proof (cases "promise_all2 (iceRejectsFirst env)
                 (token_chain ''Speech'' (speechFetch env)) (token_chain ''ICE'' (iceFetch env))")
    case (Inl err)
    have "key (init_catch err ?s2) = key s" by (simp only: key_init_catch k2)
    then have "buttons_current (init_catch err ?s2)" using a buttons_current_key by blast
    then show ?thesis using Inl by (simp add: init_def Let_def)
  next
    case (Inr p)
    obtain speechToken iceTokenRaw where p: "p = (speechToken, iceTokenRaw)" by (cases p)
    let ?s3 = "setLoadingText LoadingInitialising (?s2\<lparr>avatar := Some new_AvatarManager\<rparr>)"
    obtain a' es r where c: "connect (JSON_parse env) (startAvatar env) speechToken (region ?s3)
                                   iceTokenRaw new_AvatarManager = (a', es, r)"
      by (cases "connect (JSON_parse env) (startAvatar env) speechToken (region ?s3)
                                   iceTokenRaw new_AvatarManager")
    let ?s4 = "run_effects es (?s3\<lparr>avatar := Some a'\<rparr>)"
    have "key ?s4 = key s"
      by (simp add: key_run_effects) (simp add: key_def bound_ids_def setLoadingText_def logged_def)
    then have c4: "buttons_current ?s4" using a buttons_current_key by blast
    have "buttons_current (init_catch err ?s4)" for err
      using c4 buttons_current_key [OF key_init_catch] by blast
    then have "buttons_current (case r of Some err \<Rightarrow> init_catch err ?s4 | None \<Rightarrow> startInterview ?s4)"
      using buttons_current_startInterview [OF c4] by (cases r) simp_all
    then show ?thesis using Inr p c by (simp add: init_def Let_def)
  qed
qed

lemma buttons_current_reachable:
  "buttons_current (run (init env (constructor c r)) evs)"
proof (rule run_invariant)
  show "buttons_current (init env (constructor c r))"
    by (rule buttons_current_init) (simp add: buttons_current_def bound_ids_def constructor_def)
qed (rule buttons_current_step)

subsection \<open>What each handler does to the lock and to the answers\<close>

lemma bounded_speak_cases:
  "speak_refused s \<Longrightarrow> \<exists>err. snd (bounded_speak k t s) = Some err
      \<and> fst (bounded_speak k t s) =
          add_race \<lparr>rc_kind = k, rc_open = False, rc_speaking = False,
                     rc_timer = (case avatar s of None \<Rightarrow> timer_first k | Some a \<Rightarrow> True)\<rparr>
            (case avatar s of None \<Rightarrow> s
             | Some a \<Rightarrow> logged (Av (Reject ''Avatar is not connected. Call connect() first.'')) s)"
  "\<not> speak_refused s \<Longrightarrow> snd (bounded_speak k t s) = None
      \<and> fst (bounded_speak k t s) =
          add_race \<lparr>rc_kind = k, rc_open = True, rc_speaking = True, rc_timer = True\<rparr>
            (logged (Av (SpeakTextAsync t)) (onSpeakStart (logged (Av OnSpeakStart)
               (s\<lparr>avatar := Some ((the (avatar s))\<lparr>isSpeaking := True\<rparr>)\<rparr>))))"
  by (auto simp: bounded_speak_def speak_refused_def speak_def Let_def callback_def avatar_same
      split: option.splits)

lemma bounded_speak_locked:
  "answerLocked (fst (bounded_speak k t s)) = (if speak_refused s then answerLocked s else True)"
  "answers (fst (bounded_speak k t s)) = answers s"
  "speak_refused (fst (bounded_speak k t s)) = speak_refused s"
  "(snd (bounded_speak k t s) = None) = (\<not> speak_refused s)"
  using bounded_speak_cases [of s k t]
  by (cases "speak_refused s";
      auto simp: add_race_def logged_def onSpeakStart_def page_defs speak_refused_def
        split: option.splits)+

lemma bounded_speak_Some: "snd (bounded_speak k t s) = Some e \<Longrightarrow> speak_refused s"
  using bounded_speak_locked(4) [of k t s] by auto

lemma speak_refused_upd [simp]:
  "speak_refused (s\<lparr>races := x\<rparr>) = speak_refused s"
  "speak_refused (s\<lparr>pendingAdvances := n\<rparr>) = speak_refused s"
  "speak_refused (logged y s) = speak_refused s"
  "speak_refused (setOptionsEnabled b s) = speak_refused s"
  "speak_refused (s\<lparr>buttons := bs\<rparr>) = speak_refused s"
  "speak_refused (ask_prep idx s) = speak_refused s"
  "speak_refused (close_race i s) = speak_refused s"
  by (simp_all add: speak_refused_def logged_def setOptionsEnabled_def ask_prep_def renderQuestion_def
        close_race_def)

lemma finish_show_locked:
  "answerLocked (finish_show d s) = answerLocked s"
  "answers (finish_show d s) = answers s"
  by (simp_all add: finish_show_def Let_def disconnect_def callback_def logged_def
      split: option.splits prod.splits sum.splits)

lemma finish_score_locked:
  "answerLocked (finish_score s) = (if speak_refused s then answerLocked s else True)"
  "answers (finish_score s) = answers s"
  by (simp_all add: finish_score_def Let_def split_beta bounded_speak_locked finish_show_locked
      split: option.splits)

lemma finishInterview_locked:
  "answerLocked (finishInterview s) = (if speak_refused s then answerLocked s else True)"
  "answers (finishInterview s) = answers s"
  by (simp_all add: finishInterview_def Let_def split_beta bounded_speak_locked finish_score_locked
      split: option.splits)
     (simp_all add: setOptionsEnabled_def)

lemma ask_prep_fields:
  "answerLocked (ask_prep idx s)" "answers (ask_prep idx s) = answers s"
  by (simp_all add: ask_prep_def page_defs renderQuestion_def)

lemma resume_fields:
  "answers (unhandled (askQuestion_resume outcome s) s) = answers s"
  "answerLocked (unhandled (askQuestion_resume (Inl err) s) s) = False"
  "unhandled (askQuestion_resume (Inr u) s) s = s"
  by (simp_all add: askQuestion_resume_def unhandled_def callback_defs page_defs split: sum.splits)

lemma askQuestion_locked:
  "answerLocked (askQuestion idx s) =
     (if idx < length (questions s) then \<not> speak_refused s
      else if speak_refused s then answerLocked s else True)"
  "answers (askQuestion idx s) = answers s"
proof -
  show "answerLocked (askQuestion idx s) =
     (if idx < length (questions s) then \<not> speak_refused s
      else if speak_refused s then answerLocked s else True)"
  proof (cases "idx < length (questions s)")
    case True
    then show ?thesis
      by (auto simp add: askQuestion_below bounded_speak_locked ask_prep_fields resume_fields
          dest: bounded_speak_Some split: option.splits)
  next
    case False
    then show ?thesis
      by (simp add: askQuestion_beyond finishInterview_locked)
  qed
  show "answers (askQuestion idx s) = answers s"
  proof (cases "idx < length (questions s)")
    case True
    then show ?thesis
      by (simp add: askQuestion_below bounded_speak_locked ask_prep_fields resume_fields
          split: option.splits)
  next
    case False
    then show ?thesis
      by (simp add: askQuestion_beyond finishInterview_locked)
  qed
qed

lemma settle_unlocks:
  "answerLocked s \<Longrightarrow> \<not> answerLocked (settle i outcome s) \<Longrightarrow>
     (\<exists>idx err. rc_kind (races s ! i) = RQuestion idx \<and> outcome = Inl err)
     \<or> (rc_kind (races s ! i) = RWelcome \<and> speak_refused s)"
  by (cases "rc_kind (races s ! i)"; cases outcome)
     (auto simp: settle_def Let_def askQuestion_locked finish_score_locked finish_show_locked
        resume_fields split: if_splits)

lemma settle_answers: "answers (settle i outcome s) = answers s"
  by (cases "rc_kind (races s ! i)"; cases outcome)
     (simp_all add: settle_def Let_def askQuestion_locked finish_score_locked finish_show_locked
        resume_fields)

lemma handleAnswer_fields:
  "answerLocked s \<Longrightarrow> handleAnswer q oid s = s"
  "answerLocked (handleAnswer q oid s)"
  by (simp_all add: handleAnswer_def Let_def page_defs)

lemma run_effects_answers: "answers (run_effects es s) = answers s"
  by (induction es arbitrary: s) (simp_all add: callback_defs page_defs split: av_effect.splits)

lemma on_sdk_callback_answers: "answers (on_sdk_callback i cb s) = answers s"
  by (simp add: on_sdk_callback_def Let_def split_beta settle_answers run_effects_answers
      split: option.splits)

lemma on_timer_answers: "answers (on_timer i s) = answers s"
  by (simp add: on_timer_def Let_def settle_answers)

lemma on_ice_fields:
  "answers (on_ice st s) = answers s" "answerLocked (on_ice st s) = answerLocked s"
  by (simp_all add: on_ice_def callback_defs page_defs split: option.splits)

lemma on_timer_unlocks:
  assumes "answerLocked s" "\<not> answerLocked (on_timer i s)"
  shows "i < length (races s) \<and> rc_open (races s ! i) \<and> rc_timer (races s ! i)
        \<and> ((\<exists>idx. rc_kind (races s ! i) = RQuestion idx)
             \<or> (rc_kind (races s ! i) = RWelcome \<and> speak_refused s))"
proof -
  let ?s1 = "s\<lparr>races := (races s)[i := (races s ! i)\<lparr>rc_timer := False\<rparr>]\<rparr>"
  have en: "i < length (races s)" "rc_timer (races s ! i)" "rc_open (races s ! i)"
    using assms by (auto simp: on_timer_def Let_def split: if_splits)
  then obtain outcome where st: "on_timer i s = settle i outcome ?s1"
    by (simp add: on_timer_def Let_def)
  have "answerLocked ?s1" using assms(1) by simp
  then have "(\<exists>idx err. rc_kind (races ?s1 ! i) = RQuestion idx \<and> outcome = Inl err)
     \<or> (rc_kind (races ?s1 ! i) = RWelcome \<and> speak_refused ?s1)"
    using settle_unlocks assms(2) st by metis
  then show ?thesis using en by auto
qed

lemma on_delay_locked:
  assumes "answerLocked s" "\<not> answerLocked (on_delay s)"
  shows "speak_refused s"
  using assms by (auto simp: on_delay_def handleAnswer_resume_def askQuestion_locked split: if_splits)

lemma on_delay_answers: "answers (on_delay s) = answers s"
  by (simp add: on_delay_def handleAnswer_resume_def askQuestion_locked)

lemma on_sdk_callback_enabled:
  "on_sdk_callback i cb s \<noteq> s \<Longrightarrow> i < length (races s) \<and> rc_speaking (races s ! i)"
  by (auto simp: on_sdk_callback_def split: option.splits if_splits)

lemma on_click_fields:
  "answerLocked s \<Longrightarrow> on_click j s = s"
  "answers (on_click j s) \<noteq> answers s \<Longrightarrow> \<not> answerLocked s \<and> answerLocked (on_click j s)"
  by (auto simp: on_click_def handleAnswer_fields)

lemma unlocked_fields:
  "answerLocked (unlockOptions s) = False"
  "answerLocked (onSpeakEnd s) = False"
  "flow (unlockOptions s) =
     (currentIdx s, answers s, False, map (\<lambda>b. b\<lparr>b_disabled := False\<rparr>) (buttons s), pendingAdvances s)"
  "flow (onSpeakEnd s) =
     (currentIdx s, answers s, False, map (\<lambda>b. b\<lparr>b_disabled := False\<rparr>) (buttons s), pendingAdvances s)"
  "dot (unlockOptions s) = ''connected''" "dot (onSpeakEnd s) = ''connected''"
  "hint (unlockOptions s) = False" "hint (onSpeakEnd s) = False"
  by (simp_all add: flow_def callback_defs page_defs)

lemma on_timer_question:
  assumes "i < length (races s)" "rc_kind (races s ! i) = RQuestion idx"
    "rc_open (races s ! i)" "rc_timer (races s ! i)"
  shows "on_timer i s = unlockOptions (logged (ConsoleWarn ''Speech timeout'')
      (s\<lparr>races := (races s)[i := (races s ! i)\<lparr>rc_timer := False, rc_open := False\<rparr>]\<rparr>))"
  using assms
  by (simp add: on_timer_def Let_def settle_def close_race_def askQuestion_resume_def unhandled_def)

lemma on_sdk_callback_question:
  assumes "avatar s = Some a" "i < length (races s)" "rc_kind (races s ! i) = RQuestion idx"
    "rc_open (races s ! i)" "rc_speaking (races s ! i)"
  shows "on_sdk_callback i (SdkResult SynthesizingAudioCompleted d) s =
           mark_done i (logged (Av Resolve) (onSpeakEnd (logged (Av OnSpeakEnd)
             (s\<lparr>avatar := Some (a\<lparr>isSpeaking := False\<rparr>)\<rparr>))))"
    and "on_sdk_callback i (SdkResult (OtherReason code) d) s =
           unlockOptions (logged (ConsoleWarn (failure_message code d))
            (mark_done i (logged (Av (Reject (failure_message code d)))
              (logged (Av (ConsoleError (failure_message code d)))
                (onSpeakEnd (logged (Av OnSpeakEnd) (s\<lparr>avatar := Some (a\<lparr>isSpeaking := False\<rparr>)\<rparr>)))))))"
    and "on_sdk_callback i (SdkError err) s =
           unlockOptions (logged (ConsoleWarn err)
            (mark_done i (logged (Av (Reject err))
              (logged (Av (ConsoleError err))
                (onSpeakEnd (logged (Av OnSpeakEnd) (s\<lparr>avatar := Some (a\<lparr>isSpeaking := False\<rparr>)\<rparr>)))))))"
  using assms
  by (simp_all add: on_sdk_callback_def speak_callback_def Let_def settle_def close_race_def
      askQuestion_resume_def unhandled_def mark_done_def callback_defs page_defs)

subsection \<open>Counting the open entries of a list\<close>

lemma filter_update_same:
  "P (f (xs ! i)) = P (xs ! i) \<Longrightarrow> length (filter P (xs[i := f (xs ! i)])) = length (filter P xs)"
proof (induction xs arbitrary: i)
  case Nil
  then show ?case by simp
next
  case (Cons x xs)
  then show ?case by (cases i) simp_all
qed

lemma filter_update_off:
  "i < length xs \<Longrightarrow> P (xs ! i) \<Longrightarrow> \<not> P (f (xs ! i)) \<Longrightarrow>
     Suc (length (filter P (xs[i := f (xs ! i)]))) = length (filter P xs)"
proof (induction xs arbitrary: i)
  case Nil
  then show ?case by simp
next
  case (Cons x xs)
  then show ?case by (cases i) simp_all
qed

subsection \<open>Races are only ever appended\<close>

lemma speaks_on_iff:
  "speaks_on s s' =
     (\<exists>new. races s' = races s @ new
        \<and> length (filter rc_open new) = (if speak_refused s then 0 else 1)
        \<and> pendingAdvances s' = pendingAdvances s)"
proof
  assume a: "speaks_on s s'"
  have "races s' = take (length (races s)) (races s') @ drop (length (races s)) (races s')"
    by simp
  moreover have "take (length (races s)) (races s') = races s"
    using a by (simp add: speaks_on_def)
  ultimately have "races s' = races s @ drop (length (races s)) (races s')"
    by simp
  then show "\<exists>new. races s' = races s @ new
        \<and> length (filter rc_open new) = (if speak_refused s then 0 else 1)
        \<and> pendingAdvances s' = pendingAdvances s"
    using a unfolding speaks_on_def by blast
next
  assume "\<exists>new. races s' = races s @ new
        \<and> length (filter rc_open new) = (if speak_refused s then 0 else 1)
        \<and> pendingAdvances s' = pendingAdvances s"
  then show "speaks_on s s'" by (auto simp: speaks_on_def)
qed

lemma speaks_on_open_waits:
  "speaks_on s s' \<Longrightarrow> open_waits s' = open_waits s + (if speak_refused s then 0 else 1)"
  by (auto simp: speaks_on_iff open_waits_def)

lemma speaks_on_frame:
  assumes "speaks_on s1 s'" "races s1 = races s" "pendingAdvances s1 = pendingAdvances s"
    "speak_refused s1 = speak_refused s"
  shows "speaks_on s s'"
  using assms by (simp add: speaks_on_def)

lemma speaks_on_after_refusal:
  assumes "speaks_on s1 s'" "races s1 = races s @ xs" "filter rc_open xs = []"
    "pendingAdvances s1 = pendingAdvances s" "speak_refused s1" "speak_refused s"
  shows "speaks_on s s'"
proof -
  obtain new where n: "races s' = races s1 @ new" "length (filter rc_open new) = 0"
    "pendingAdvances s' = pendingAdvances s1"
    using assms(1,5) by (auto simp: speaks_on_iff)
  have "races s' = races s @ (xs @ new)" using n(1) assms(2) by simp
  moreover have "length (filter rc_open (xs @ new)) = 0" using n(2) assms(3) by simp
  ultimately have "races s' = races s @ (xs @ new)
        \<and> length (filter rc_open (xs @ new)) = (if speak_refused s then 0 else 1)
        \<and> pendingAdvances s' = pendingAdvances s"
    using assms(4,6) n(3) by simp
  then show ?thesis
    unfolding speaks_on_iff by (rule exI)
qed

lemma speaks_on_same:
  assumes "races s' = races s" "pendingAdvances s' = pendingAdvances s" "speak_refused s"
  shows "speaks_on s s'"
  using assms by (simp add: speaks_on_def)

lemma run_effects_waits:
  "races (run_effects es s) = races s" "pendingAdvances (run_effects es s) = pendingAdvances s"
  by (induction es arbitrary: s) (simp_all add: callback_defs page_defs split: av_effect.splits)

lemma bounded_speak_races:
  "\<exists>r. races (fst (bounded_speak k t s)) = races s @ [r] \<and> rc_open r = (\<not> speak_refused s)"
  "pendingAdvances (fst (bounded_speak k t s)) = pendingAdvances s"
  using bounded_speak_cases [of s k t]
  by (cases "speak_refused s";
      auto simp: add_race_def logged_def onSpeakStart_def page_defs split: option.splits)+

lemma finish_show_waits:
  "races (finish_show d s) = races s" "pendingAdvances (finish_show d s) = pendingAdvances s"
  by (simp_all add: finish_show_def Let_def run_effects_waits
      split: option.splits prod.splits sum.splits)

lemma finish_score_speaks: "speaks_on s (finish_score s)"
proof -
  let ?d = "scoreAnswers (answers s)"
  let ?b = "bounded_speak (RFinishResult ?d) (resultText ?d) s"
  obtain r where r: "races (fst ?b) = races s @ [r]" "rc_open r = (\<not> speak_refused s)"
    using bounded_speak_races(1) by blast
  have p: "pendingAdvances (fst ?b) = pendingAdvances s" by (rule bounded_speak_races)
  show ?thesis
  proof (cases "speak_refused s")
    case True
    then obtain err where e: "snd ?b = Some err"
      using bounded_speak_locked(4) [of "RFinishResult ?d" "resultText ?d" s] by auto
    have "finish_score s = finish_show ?d (fst ?b)"
      using e by (simp add: finish_score_def Let_def split_beta)
    then show ?thesis
      using True r p by (simp add: speaks_on_iff finish_show_waits)
  next
    case False
    then have e: "snd ?b = None"
      using bounded_speak_locked(4) [of "RFinishResult ?d" "resultText ?d" s] by auto
    have "finish_score s = fst ?b"
      using e by (simp add: finish_score_def Let_def split_beta)
    then show ?thesis
      using False r p by (simp add: speaks_on_iff)
  qed
qed

lemma finishInterview_speaks: "speaks_on s (finishInterview s)"
proof -
  let ?s1 = "(setOptionsEnabled False (logged FinishInterview s))\<lparr>buttons := []\<rparr>"
  let ?b = "bounded_speak RFinishWait waitText ?s1"
  have f: "races ?s1 = races s" "pendingAdvances ?s1 = pendingAdvances s"
    "speak_refused ?s1 = speak_refused s"
    by (simp_all add: page_defs speak_refused_def)
  obtain r where r: "races (fst ?b) = races ?s1 @ [r]" "rc_open r = (\<not> speak_refused ?s1)"
    using bounded_speak_races(1) by blast
  have p: "pendingAdvances (fst ?b) = pendingAdvances ?s1" by (rule bounded_speak_races)
  have rf: "speak_refused (fst ?b) = speak_refused ?s1" by (rule bounded_speak_locked)
  show ?thesis
  proof (cases "speak_refused s")
    case True
    then obtain err where e: "snd ?b = Some err"
      using bounded_speak_locked(4) [of RFinishWait waitText ?s1] f by auto
    have eq: "finishInterview s = finish_score (fst ?b)"
      using e by (simp add: finishInterview_def Let_def split_beta)
    have a: "speaks_on (fst ?b) (finish_score (fst ?b))" by (rule finish_score_speaks)
    have c: "filter rc_open [r] = []" using r True f by simp
    have d: "speak_refused (fst ?b)" "speak_refused ?s1" using rf True f by simp_all
    have so: "speaks_on ?s1 (finish_score (fst ?b))"
      by (rule speaks_on_after_refusal [OF a r(1) c p d])
    show ?thesis unfolding eq by (rule speaks_on_frame [OF so f])
  next
    case False
    then have e: "snd ?b = None"
      using bounded_speak_locked(4) [of RFinishWait waitText ?s1] f by auto
    have "finishInterview s = fst ?b"
      using e by (simp add: finishInterview_def Let_def split_beta)
    then show ?thesis
      using False r p f by (simp add: speaks_on_iff)
  qed
qed

lemma ask_prep_waits:
  "races (ask_prep idx s) = races s" "pendingAdvances (ask_prep idx s) = pendingAdvances s"
  by (simp_all add: ask_prep_def page_defs renderQuestion_def)

lemma resume_waits:
  "races (unhandled (askQuestion_resume outcome s) s) = races s"
  "pendingAdvances (unhandled (askQuestion_resume outcome s) s) = pendingAdvances s"
  by (simp_all add: askQuestion_resume_def unhandled_def callback_defs page_defs split: sum.splits)

lemma askQuestion_speaks: "speaks_on s (askQuestion idx s)"
proof (cases "idx < length (questions s)")
  case True
  let ?b = "bounded_speak (RQuestion idx) (question_speech idx (questions s ! idx)) (ask_prep idx s)"
  obtain r where r: "races (fst ?b) = races (ask_prep idx s) @ [r]"
    "rc_open r = (\<not> speak_refused (ask_prep idx s))"
    using bounded_speak_races(1) by blast
  have p: "pendingAdvances (fst ?b) = pendingAdvances (ask_prep idx s)" by (rule bounded_speak_races)
  show ?thesis
    using True r p
    by (auto simp: askQuestion_below speaks_on_iff resume_waits ask_prep_waits
        split: option.splits)
next
  case False
  have "speaks_on (logged (AskQuestion idx) s) (finishInterview (logged (AskQuestion idx) s))"
    by (rule finishInterview_speaks)
  then show ?thesis
    using False by (simp add: askQuestion_beyond speaks_on_def logged_def speak_refused_def)
qed

subsection \<open>At most one wait, and locked while waiting\<close>

lemma quiet_then:
  assumes "open_waits s1 = 0"
    and "(speaks_on s1 s' \<and> (\<not> speak_refused s1 \<longrightarrow> answerLocked s'))
         \<or> (races s' = races s1 \<and> pendingAdvances s' = pendingAdvances s1)"
    and "length (races s) = length (races s1)"
  shows "wait_ok s'" "earlier_closed s s'"
proof -
  have c: "list_all (\<lambda>r. \<not> rc_open r) (races s1)"
    using assms(1) by (simp add: open_waits_def filter_empty_conv list_all_iff)
  from assms(2) show "wait_ok s'"
  proof
    assume a: "speaks_on s1 s' \<and> (\<not> speak_refused s1 \<longrightarrow> answerLocked s')"
    then show ?thesis
      using speaks_on_open_waits [of s1 s'] assms(1) by (auto simp: wait_ok_def)
  next
    assume "races s' = races s1 \<and> pendingAdvances s' = pendingAdvances s1"
    then show ?thesis using assms(1) by (simp add: wait_ok_def open_waits_def)
  qed
  from assms(2) show "earlier_closed s s'"
  proof
    assume "speaks_on s1 s' \<and> (\<not> speak_refused s1 \<longrightarrow> answerLocked s')"
    then have "take (length (races s1)) (races s') = races s1" by (simp add: speaks_on_def)
    then show ?thesis using c assms(3) by (simp add: earlier_closed_def)
  next
    assume "races s' = races s1 \<and> pendingAdvances s' = pendingAdvances s1"
    then show ?thesis using c assms(3) by (simp add: earlier_closed_def)
  qed
qed

lemma taken_locked:
  "\<not> speak_refused s \<Longrightarrow> answerLocked (askQuestion idx s)"
  "\<not> speak_refused s \<Longrightarrow> answerLocked (finish_score s)"
  by (simp_all add: askQuestion_locked finish_score_locked)

lemma close_race_waits:
  assumes "i < length (races s)" "rc_open (races s ! i)"
  shows "Suc (open_waits (close_race i s)) = open_waits s"
    "length (races (close_race i s)) = length (races s)"
    "pendingAdvances (close_race i s) = pendingAdvances s"
proof -
  have "Suc (length (filter rc_open ((races s)[i := (races s ! i)\<lparr>rc_open := False\<rparr>])))
      = length (filter rc_open (races s))"
    using assms by (intro filter_update_off) simp_all
  then show "Suc (open_waits (close_race i s)) = open_waits s"
    by (simp add: open_waits_def close_race_def)
  show "length (races (close_race i s)) = length (races s)"
    "pendingAdvances (close_race i s) = pendingAdvances s"
    by (simp_all add: close_race_def)
qed

lemma settle_shape:
  "(speaks_on (close_race i s) (settle i outcome s)
      \<and> (\<not> speak_refused (close_race i s) \<longrightarrow> answerLocked (settle i outcome s)))
   \<or> (races (settle i outcome s) = races (close_race i s)
      \<and> pendingAdvances (settle i outcome s) = pendingAdvances (close_race i s))"
proof (cases "rc_kind (races s ! i)")
  case RWelcome
  let ?s1 = "case outcome of Inl err \<Rightarrow> logged (ConsoleWarn err) (close_race i s)
             | Inr u \<Rightarrow> close_race i s"
  have f: "races ?s1 = races (close_race i s)"
    "pendingAdvances ?s1 = pendingAdvances (close_race i s)"
    "speak_refused ?s1 = speak_refused (close_race i s)"
    by (simp_all add: logged_def speak_refused_def split: sum.splits)
  have e: "settle i outcome s = askQuestion 0 ?s1"
    using RWelcome by (simp add: settle_def Let_def)
  have "speaks_on (close_race i s) (askQuestion 0 ?s1)"
    by (rule speaks_on_frame [OF askQuestion_speaks f])
  moreover have "\<not> speak_refused (close_race i s) \<longrightarrow> answerLocked (askQuestion 0 ?s1)"
    using taken_locked(1) [of ?s1 0] f(3) by simp
  ultimately show ?thesis unfolding e by blast
next
  case (RQuestion idx)
  then show ?thesis by (simp add: settle_def Let_def resume_waits)
next
  case RFinishWait
  then show ?thesis
    using finish_score_speaks [of "close_race i s"] taken_locked(2) [of "close_race i s"]
    by (simp add: settle_def Let_def)
next
  case (RFinishResult d)
  then show ?thesis by (simp add: settle_def Let_def finish_show_waits)
qed

lemma settle_wait_ok:
  assumes "open_waits s \<le> 1" "i < length (races s)" "rc_open (races s ! i)"
  shows "wait_ok (settle i outcome s)" "earlier_closed s (settle i outcome s)"
proof -
  have z: "open_waits (close_race i s) = 0"
    using close_race_waits(1) [OF assms(2,3)] assms(1) by simp
  have l: "length (races s) = length (races (close_race i s))"
    by (simp add: close_race_def)
  show "wait_ok (settle i outcome s)" "earlier_closed s (settle i outcome s)"
    using quiet_then [OF z settle_shape l] by blast+
qed

lemma flag_waits:
  assumes "\<And>r. rc_open (f r) = rc_open r"
  shows "open_waits (s\<lparr>races := (races s)[i := f (races s ! i)]\<rparr>) = open_waits s"
  using filter_update_same [of rc_open f "races s" i] assms by (simp add: open_waits_def)

lemma earlier_closed_len:
  "length (races s0) = length (races s) \<Longrightarrow> earlier_closed s0 s' = earlier_closed s s'"
  by (simp add: earlier_closed_def)

lemma not_speak_issued: "length (races s') = length (races s) \<Longrightarrow> \<not> speak_issued s s'"
  by (simp add: speak_issued_def)

lemma wait_ok_frame:
  "races s' = races s \<Longrightarrow> pendingAdvances s' = pendingAdvances s \<Longrightarrow>
   answerLocked s' = answerLocked s \<Longrightarrow> wait_ok s' = wait_ok s"
  by (simp add: wait_ok_def open_waits_def)

lemma settlement_speak_callback: "\<exists>outcome. settlement (snd (speak_callback cb a)) = Some outcome"
  by (cases cb) (auto simp: speak_callback_def split: result_reason.splits)

lemma on_sdk_callback_wait_ok:
  assumes "wait_ok s" "\<not> stale s (SdkCallback i cb)"
  shows "wait_ok (on_sdk_callback i cb s)"
    and "speak_issued s (on_sdk_callback i cb s) \<longrightarrow> earlier_closed s (on_sdk_callback i cb s)"
proof -
  have "wait_ok (on_sdk_callback i cb s)
      \<and> (speak_issued s (on_sdk_callback i cb s) \<longrightarrow> earlier_closed s (on_sdk_callback i cb s))"
  proof (cases "avatar s")
    case None
    then show ?thesis using assms(1) by (simp add: on_sdk_callback_def not_speak_issued)
  next
    case (Some a)
    show ?thesis
    proof (cases "i < length (races s) \<and> rc_speaking (races s ! i)")
      case False
      then show ?thesis using Some assms(1) by (auto simp: on_sdk_callback_def not_speak_issued)
    next
      case True
      then have op: "rc_open (races s ! i)" using assms(2) by (simp add: stale_def)
      obtain a' es where sc: "speak_callback cb a = (a', es)" by (cases "speak_callback cb a")
      obtain outcome where st: "settlement es = Some outcome"
        using settlement_speak_callback [of cb a] sc by auto
      let ?s1 = "s\<lparr>avatar := Some a',
                   races := (races s)[i := (races s ! i)\<lparr>rc_speaking := False\<rparr>]\<rparr>"
      let ?s2 = "run_effects es ?s1"
      have r2: "races ?s2 = (races s)[i := (races s ! i)\<lparr>rc_speaking := False\<rparr>]"
        "pendingAdvances ?s2 = pendingAdvances s"
        by (simp_all add: run_effects_waits)
      have o2: "open_waits ?s2 = open_waits s"
        using filter_update_same [of rc_open "\<lambda>r. r\<lparr>rc_speaking := False\<rparr>" "races s" i] r2
        by (simp add: open_waits_def)
      have len: "i < length (races ?s2)" using True r2 by simp
      have op2: "rc_open (races ?s2 ! i)" using True op r2 by simp
      have e: "on_sdk_callback i cb s = settle i outcome ?s2"
        using Some True sc st op2 by (simp add: on_sdk_callback_def Let_def)
      have le: "open_waits ?s2 \<le> 1" using o2 assms(1) by (simp add: wait_ok_def)
      have "length (races ?s2) = length (races s)" using r2 by simp
      then have "earlier_closed s (settle i outcome ?s2)"
        using settle_wait_ok(2) [OF le len op2] earlier_closed_len by blast
      then show ?thesis
        unfolding e using settle_wait_ok(1) [OF le len op2] by blast
    qed
  qed
  then show "wait_ok (on_sdk_callback i cb s)"
    and "speak_issued s (on_sdk_callback i cb s) \<longrightarrow> earlier_closed s (on_sdk_callback i cb s)"
    by blast+
qed

lemma on_timer_wait_ok:
  assumes "wait_ok s"
  shows "wait_ok (on_timer i s)"
    and "speak_issued s (on_timer i s) \<longrightarrow> earlier_closed s (on_timer i s)"
proof -
  have "wait_ok (on_timer i s)
      \<and> (speak_issued s (on_timer i s) \<longrightarrow> earlier_closed s (on_timer i s))"
  proof (cases "i < length (races s) \<and> rc_timer (races s ! i)")
    case False
    then show ?thesis using assms by (auto simp: on_timer_def not_speak_issued)
  next
    case True
    let ?s1 = "s\<lparr>races := (races s)[i := (races s ! i)\<lparr>rc_timer := False\<rparr>]\<rparr>"
    have o1: "open_waits ?s1 = open_waits s"
      using filter_update_same [of rc_open "\<lambda>r. r\<lparr>rc_timer := False\<rparr>" "races s" i]
      by (simp add: open_waits_def)
    have w1: "wait_ok ?s1" using assms o1 by (simp add: wait_ok_def)
    show ?thesis
    proof (cases "rc_open (races s ! i)")
      case False
      then have "on_timer i s = ?s1" using True by (simp add: on_timer_def Let_def)
      then show ?thesis using w1 by (simp add: not_speak_issued)
    next
      case op: True
      have len: "i < length (races ?s1)" using True by simp
      have op1: "rc_open (races ?s1 ! i)" using True op by simp
      obtain outcome where e: "on_timer i s = settle i outcome ?s1"
        using True op by (simp add: on_timer_def Let_def)
      have le: "open_waits ?s1 \<le> 1" using w1 by (simp add: wait_ok_def)
      have "length (races ?s1) = length (races s)" by simp
      then have "earlier_closed s (settle i outcome ?s1)"
        using settle_wait_ok(2) [OF le len op1] earlier_closed_len by blast
      then show ?thesis
        unfolding e using settle_wait_ok(1) [OF le len op1] by blast
    qed
  qed
  then show "wait_ok (on_timer i s)"
    and "speak_issued s (on_timer i s) \<longrightarrow> earlier_closed s (on_timer i s)"
    by blast+
qed

lemma on_click_wait_ok:
  assumes "wait_ok s"
  shows "wait_ok (on_click j s)" "\<not> speak_issued s (on_click j s)"
proof -
  have r: "races (handleAnswer q oid s) = races s" for q oid
    by (simp add: handleAnswer_def Let_def page_defs)
  have "wait_ok (handleAnswer q oid s)" for q oid
  proof (cases "answerLocked s")
    case True
    then show ?thesis using assms by (simp add: handleAnswer_def)
  next
    case False
    then have "open_waits s = 0" using assms by (auto simp: wait_ok_def)
    then show ?thesis
      using False by (simp add: handleAnswer_def Let_def page_defs wait_ok_def open_waits_def)
  qed
  then show "wait_ok (on_click j s)" using assms by (simp add: on_click_def)
  show "\<not> speak_issued s (on_click j s)"
    using r by (simp add: on_click_def speak_issued_def)
qed

lemma on_delay_wait_ok:
  assumes "wait_ok s"
  shows "wait_ok (on_delay s)"
    and "speak_issued s (on_delay s) \<longrightarrow> earlier_closed s (on_delay s)"
proof -
  have "wait_ok (on_delay s)
      \<and> (speak_issued s (on_delay s) \<longrightarrow> earlier_closed s (on_delay s))"
  proof (cases "pendingAdvances s > 0")
    case False
    then show ?thesis using assms by (simp add: on_delay_def not_speak_issued)
  next
    case True
    let ?s1 = "s\<lparr>pendingAdvances := pendingAdvances s - 1\<rparr>"
    have "length (filter rc_open (races s)) + pendingAdvances s \<le> 1"
      using assms by (simp add: wait_ok_def open_waits_def)
    then have "length (filter rc_open (races s)) = 0 \<and> pendingAdvances s = 1"
      using True by arith
    then have z: "open_waits ?s1 = 0" by (simp add: open_waits_def)
    have e: "on_delay s = askQuestion (currentIdx s + 1) ?s1"
      using True by (simp add: on_delay_def handleAnswer_resume_def)
    have sh: "(speaks_on ?s1 (askQuestion (currentIdx s + 1) ?s1)
        \<and> (\<not> speak_refused ?s1 \<longrightarrow> answerLocked (askQuestion (currentIdx s + 1) ?s1)))
      \<or> (races (askQuestion (currentIdx s + 1) ?s1) = races ?s1
        \<and> pendingAdvances (askQuestion (currentIdx s + 1) ?s1) = pendingAdvances ?s1)"
      using askQuestion_speaks [of ?s1 "currentIdx s + 1"] taken_locked(1) [of ?s1 "currentIdx s + 1"]
      by blast
    have l: "length (races s) = length (races ?s1)" by simp
    show ?thesis unfolding e using quiet_then [OF z sh l] by blast
  qed
  then show "wait_ok (on_delay s)"
    and "speak_issued s (on_delay s) \<longrightarrow> earlier_closed s (on_delay s)"
    by blast+
qed

lemma on_ice_waits:
  "races (on_ice st s) = races s" "pendingAdvances (on_ice st s) = pendingAdvances s"
  by (simp_all add: on_ice_def callback_defs page_defs split: option.splits)

lemma step_wait_ok:
  assumes "wait_ok s" "\<not> stale s e"
  shows "wait_ok (step s e)"
    and "speak_issued s (step s e) \<longrightarrow> earlier_closed s (step s e)"
proof -
  have "wait_ok (step s e) \<and> (speak_issued s (step s e) \<longrightarrow> earlier_closed s (step s e))"
  proof (cases e)
    case (Click j)
    then show ?thesis using on_click_wait_ok [OF assms(1)] by (simp add: step_def)
  next
    case (SdkCallback i cb)
    then show ?thesis using on_sdk_callback_wait_ok [of s i cb] assms by (simp add: step_def)
  next
    case (TimerFired i)
    then show ?thesis using on_timer_wait_ok [OF assms(1)] by (simp add: step_def)
  next
    case DelayElapsed
    then show ?thesis using on_delay_wait_ok [OF assms(1)] by (simp add: step_def)
  next
    case (IceStateChange st)
    have "wait_ok (on_ice st s)"
      using assms(1) wait_ok_frame [OF on_ice_waits on_ice_fields(2)] by simp
    then show ?thesis
      using IceStateChange on_ice_waits(1) [of st s] by (simp add: step_def not_speak_issued)
  qed
  then show "wait_ok (step s e)"
    and "speak_issued s (step s e) \<longrightarrow> earlier_closed s (step s e)"
    by blast+
qed

lemma punctual_invariant:
  assumes "P s" and "\<And>s e. P s \<Longrightarrow> \<not> stale s e \<Longrightarrow> P (step s e)" and "punctual s evs"
  shows "P (run s evs)"
  using assms(1,3) unfolding run_def
  by (induction evs arbitrary: s) (simp_all add: assms(2))

lemma wait_ok_run: "wait_ok s \<Longrightarrow> punctual s evs \<Longrightarrow> wait_ok (run s evs)"
  using punctual_invariant [of wait_ok s evs] step_wait_ok(1) by blast

lemma startInterview_wait_ok:
  assumes "open_waits s = 0"
  shows "wait_ok (startInterview s)"
proof -
  let ?b = "bounded_speak RWelcome welcomeText s"
  obtain r where r: "races (fst ?b) = races s @ [r]" "rc_open r = (\<not> speak_refused s)"
    using bounded_speak_races(1) by blast
  have p: "pendingAdvances (fst ?b) = pendingAdvances s" by (rule bounded_speak_races)
  show ?thesis
  proof (cases "speak_refused s")
    case True
    then obtain err where e: "snd ?b = Some err"
      using bounded_speak_locked(4) [of RWelcome welcomeText s] by auto
    let ?s1 = "logged (ConsoleWarn err) (fst ?b)"
    have eq: "startInterview s = askQuestion 0 ?s1"
      using e by (simp add: startInterview_def split_beta)
    have z: "open_waits ?s1 = 0"
      using assms r p True by (simp add: open_waits_def logged_def)
    have sh: "(speaks_on ?s1 (askQuestion 0 ?s1)
        \<and> (\<not> speak_refused ?s1 \<longrightarrow> answerLocked (askQuestion 0 ?s1)))
      \<or> (races (askQuestion 0 ?s1) = races ?s1
        \<and> pendingAdvances (askQuestion 0 ?s1) = pendingAdvances ?s1)"
      using askQuestion_speaks [of ?s1 0] taken_locked(1) [of ?s1 0] by blast
    show ?thesis unfolding eq using quiet_then(1) [OF z sh refl] .
  next
    case False
    then have e: "snd ?b = None"
      using bounded_speak_locked(4) [of RWelcome welcomeText s] by auto
    have eq: "startInterview s = fst ?b"
      using e by (simp add: startInterview_def split_beta)
    have "answerLocked (fst ?b)" using False by (simp add: bounded_speak_locked)
    then show ?thesis
      unfolding eq using assms r p False by (simp add: wait_ok_def open_waits_def)
  qed
qed

lemma init_catch_waits: "open_waits (init_catch err s) = open_waits s"
  by (simp add: init_catch_def open_waits_def setLoadingText_def logged_def)

lemma init_wait_ok:
  assumes "open_waits s = 0"
  shows "wait_ok (init env s)"
proof -
  let ?s2 = "logged (Fetch ''/api/getIceToken'') (logged (Fetch ''/api/getSpeechToken'')
      (setLoadingText LoadingConnecting s))"
  have z2: "open_waits ?s2 = 0"
    using assms by (simp add: open_waits_def setLoadingText_def logged_def)
  show ?thesis
  proof (cases "promise_all2 (iceRejectsFirst env)
                 (token_chain ''Speech'' (speechFetch env)) (token_chain ''ICE'' (iceFetch env))")
    case (Inl err)
    have "wait_ok (init_catch err ?s2)"
      using z2 by (simp add: wait_ok_def init_catch_waits)
    then show ?thesis using Inl by (simp add: init_def Let_def)
  next
    case (Inr p)
    obtain speechToken iceTokenRaw where p: "p = (speechToken, iceTokenRaw)" by (cases p)
    let ?s3 = "setLoadingText LoadingInitialising (?s2\<lparr>avatar := Some new_AvatarManager\<rparr>)"
    obtain a' es r where c: "connect (JSON_parse env) (startAvatar env) speechToken (region ?s3)
                                   iceTokenRaw new_AvatarManager = (a', es, r)"
      by (cases "connect (JSON_parse env) (startAvatar env) speechToken (region ?s3)
                                   iceTokenRaw new_AvatarManager")
    let ?s4 = "run_effects es (?s3\<lparr>avatar := Some a'\<rparr>)"
    have z4: "open_waits ?s4 = 0"
      using assms by (simp add: open_waits_def run_effects_waits setLoadingText_def logged_def)
    have "wait_ok (init_catch err ?s4)" for err
      using z4 by (simp add: wait_ok_def init_catch_waits)
    then have "wait_ok (case r of Some err \<Rightarrow> init_catch err ?s4 | None \<Rightarrow> startInterview ?s4)"
      using startInterview_wait_ok [OF z4] by (cases r) simp_all
    then show ?thesis using Inr p c by (simp add: init_def Let_def)
  qed
qed

lemma wait_ok_reachable:
  "punctual (init env (constructor c r)) evs \<Longrightarrow> wait_ok (run (init env (constructor c r)) evs)"
proof (rule wait_ok_run)
  show "wait_ok (init env (constructor c r))"
    by (rule init_wait_ok) (simp add: open_waits_def constructor_def)
qed

subsection \<open>Which steps unlock\<close>

lemma on_sdk_callback_unlocks:
  assumes "answerLocked s" "\<not> answerLocked (on_sdk_callback i cb s)" "\<not> stale s (SdkCallback i cb)"
  shows "i < length (races s) \<and> rc_speaking (races s ! i) \<and> rc_open (races s ! i)
        \<and> ((\<exists>idx. rc_kind (races s ! i) = RQuestion idx)
             \<or> (\<exists>d. rc_kind (races s ! i) = RFinishResult d)
             \<or> speak_refused s)"
proof -
  have en: "i < length (races s) \<and> rc_speaking (races s ! i)"
    using on_sdk_callback_enabled [of i cb s] assms(1,2) by (cases "on_sdk_callback i cb s = s") simp_all
  then have op: "rc_open (races s ! i)" using assms(3) by (simp add: stale_def)
  obtain a where a: "avatar s = Some a"
    using assms(1,2) by (cases "avatar s") (simp_all add: on_sdk_callback_def)
  obtain a' es where sc: "speak_callback cb a = (a', es)" by (cases "speak_callback cb a")
  obtain outcome where st: "settlement es = Some outcome"
    using settlement_speak_callback [of cb a] sc by auto
  let ?s1 = "s\<lparr>avatar := Some a',
               races := (races s)[i := (races s ! i)\<lparr>rc_speaking := False\<rparr>]\<rparr>"
  let ?s2 = "run_effects es ?s1"
  have r2: "races ?s2 = (races s)[i := (races s ! i)\<lparr>rc_speaking := False\<rparr>]"
    by (simp add: run_effects_waits)
  have op2: "rc_open (races ?s2 ! i)" using en op r2 by simp
  have k2: "rc_kind (races ?s2 ! i) = rc_kind (races s ! i)" using en r2 by simp
  have e: "on_sdk_callback i cb s = settle i outcome ?s2"
    using a en sc st op2 by (simp add: on_sdk_callback_def Let_def)
  have "a' = a\<lparr>isSpeaking := False\<rparr>"
    using sc by (cases cb) (auto simp: speak_callback_def split: result_reason.splits)
  then have rf1: "speak_refused ?s1 = speak_refused s"
    using a by (simp add: speak_refused_def)
  have av: "avatar (run_effects es t) = avatar t" for t
    using sc by (cases cb)
      (auto simp: speak_callback_def callback_defs page_defs split: result_reason.splits)
  have rf: "speak_refused (close_race i ?s2) = speak_refused s"
    using rf1 av [of ?s1] by (simp add: speak_refused_def close_race_def)
  have "(\<exists>idx. rc_kind (races s ! i) = RQuestion idx)
             \<or> (\<exists>d. rc_kind (races s ! i) = RFinishResult d)
             \<or> speak_refused s"
  proof (cases "rc_kind (races s ! i)")
    case RWelcome
    let ?t = "case outcome of Inl err \<Rightarrow> logged (ConsoleWarn err) (close_race i ?s2)
              | Inr u \<Rightarrow> close_race i ?s2"
    have "settle i outcome ?s2 = askQuestion 0 ?t"
      using RWelcome k2 by (simp add: settle_def Let_def)
    moreover have "speak_refused ?t = speak_refused s"
      using rf by (cases outcome) simp_all
    ultimately show ?thesis
      using assms(2) e taken_locked(1) [of ?t 0] by auto
  next
    case (RQuestion idx)
    then show ?thesis by simp
  next
    case RFinishWait
    then have "settle i outcome ?s2 = finish_score (close_race i ?s2)"
      using k2 by (simp add: settle_def Let_def)
    then show ?thesis
      using assms(2) e rf taken_locked(2) [of "close_race i ?s2"] by auto
  next
    case (RFinishResult d)
    then show ?thesis by simp
  qed
  then show ?thesis using en op by blast
qed

lemma settle_races:
  assumes "i < length (races s)"
  shows "length (races s) \<le> length (races (settle i outcome s))"
    and "races (settle i outcome s) ! i = (races s ! i)\<lparr>rc_open := False\<rparr>"
proof -
  have "take (length (races (close_race i s))) (races (settle i outcome s)) = races (close_race i s)"
    using settle_shape [of i s outcome] by (auto simp: speaks_on_def)
  then obtain new where n: "races (settle i outcome s) = races (close_race i s) @ new"
    by (metis append_take_drop_id)
  show "length (races s) \<le> length (races (settle i outcome s))"
    using n by (simp add: close_race_def)
  show "races (settle i outcome s) ! i = (races s ! i)\<lparr>rc_open := False\<rparr>"
    using n assms by (simp add: close_race_def nth_append)
qed

lemma on_timer_keeps_request:
  assumes "i < length (races s)" "rc_timer (races s ! i)" "rc_open (races s ! i)"
  shows "races (on_timer i s) ! i = (races s ! i)\<lparr>rc_timer := False, rc_open := False\<rparr>"
proof -
  let ?s1 = "s\<lparr>races := (races s)[i := (races s ! i)\<lparr>rc_timer := False\<rparr>]\<rparr>"
  obtain outcome where e: "on_timer i s = settle i outcome ?s1"
    using assms by (simp add: on_timer_def Let_def)
  have "i < length (races ?s1)" using assms by simp
  then show ?thesis unfolding e using settle_races(2) [of i ?s1 outcome] assms by simp
qed

subsection \<open>The tokens that reach the answers\<close>

lemma tokens_ok_key: "tok_key s' = tok_key s \<Longrightarrow> tokens_ok s' = tokens_ok s"
  by (simp add: tok_key_def tokens_ok_def)

lemma tok_key_callback: "tok_key (callback e s) = tok_key s"
  by (cases e) (simp_all add: tok_key_def callback_defs page_defs o_def)

lemma tok_key_logged: "tok_key (logged x s) = tok_key s"
  by (simp add: tok_key_def logged_def)

lemma tok_key_run_effects: "tok_key (run_effects es s) = tok_key s"
  by (induction es arbitrary: s) (simp_all add: tok_key_callback tok_key_logged)

lemma tok_key_simple [simp]:
  "tok_key (s\<lparr>avatar := x\<rparr>) = tok_key s"
  "tok_key (s\<lparr>races := y\<rparr>) = tok_key s"
  "tok_key (s\<lparr>pendingAdvances := n\<rparr>) = tok_key s"
  "tok_key (s\<lparr>resultsShown := d\<rparr>) = tok_key s"
  "tok_key (s\<lparr>loadingText := l\<rparr>) = tok_key s"
  "tok_key (s\<lparr>retryButton := b\<rparr>) = tok_key s"
  "tok_key (s\<lparr>currentIdx := i\<rparr>) = tok_key s"
  "tok_key (s\<lparr>answerLocked := b\<rparr>) = tok_key s"
  "tok_key (close_race i s) = tok_key s"
  "tok_key (add_race q s) = tok_key s"
  "tok_key (setOptionsEnabled b s) = tok_key s"
  "tok_key (unlockOptions s) = tok_key s"
  by (simp_all add: tok_key_def close_race_def add_race_def callback_defs page_defs o_def)

lemma tok_key_bounded_speak: "tok_key (fst (bounded_speak k t s)) = tok_key s"
  by (simp add: bounded_speak_def Let_def split_beta tok_key_run_effects
      split: option.splits sum.splits)

lemma tok_key_finish_show: "tok_key (finish_show d s) = tok_key s"
  by (simp add: finish_show_def Let_def tok_key_run_effects
      split: option.splits sum.splits prod.splits)

lemma tok_key_finish_score: "tok_key (finish_score s) = tok_key s"
  by (simp add: finish_score_def Let_def split_beta tok_key_bounded_speak tok_key_finish_show
      split: option.splits)

lemma tokens_ok_cleared:
  "tokens_ok s \<Longrightarrow> tok_key s' = (questions s, [], answers s) \<Longrightarrow> tokens_ok s'"
  by (simp add: tok_key_def tokens_ok_def)

lemma tok_key_finishInterview: "tok_key (finishInterview s) = (questions s, [], answers s)"
proof -
  let ?s1 = "(setOptionsEnabled False (logged FinishInterview s))\<lparr>buttons := []\<rparr>"
  have 1: "tok_key ?s1 = (questions s, [], answers s)"
    by (simp add: tok_key_def page_defs)
  have "tok_key (finishInterview s) = tok_key ?s1"
    by (simp add: finishInterview_def Let_def split_beta tok_key_bounded_speak tok_key_finish_score
        split: option.splits)
  then show ?thesis using 1 by simp
qed

lemma QUESTIONS_tokens:
  "idx < length QUESTIONS \<Longrightarrow>
     list_all (\<lambda>t. t \<in> set [''A'', ''B'', ''C'', ''D'']) (map o_id (q_options (QUESTIONS ! idx)))"
proof -
  have "list_all (\<lambda>q. list_all (\<lambda>t. t \<in> set [''A'', ''B'', ''C'', ''D'']) (map o_id (q_options q)))
          QUESTIONS"
    by (simp add: QUESTIONS_def)
  then show "idx < length QUESTIONS \<Longrightarrow>
     list_all (\<lambda>t. t \<in> set [''A'', ''B'', ''C'', ''D'']) (map o_id (q_options (QUESTIONS ! idx)))"
    by (simp add: list_all_length)
qed

lemma tokens_ok_ask_prep:
  assumes "tokens_ok s" "idx < length (questions s)"
  shows "tokens_ok (ask_prep idx s)"
proof -
  have q: "questions s = QUESTIONS" using assms(1) by (simp add: tokens_ok_def)
  have "map b_optionId (buttons (ask_prep idx s)) = map o_id (q_options (QUESTIONS ! idx))"
    by (simp add: ask_prep_def renderQuestion_def page_defs o_def q)
  moreover have "questions (ask_prep idx s) = QUESTIONS" "answers (ask_prep idx s) = answers s"
    by (simp_all add: ask_prep_def renderQuestion_def page_defs q)
  ultimately show ?thesis
    using assms QUESTIONS_tokens [of idx] by (simp add: tokens_ok_def q)
qed

lemma tok_key_unhandled_resume: "tok_key (unhandled (askQuestion_resume outcome s) s) = tok_key s"
  by (simp add: unhandled_def askQuestion_resume_def tok_key_logged split: sum.splits)

lemma tokens_ok_askQuestion:
  assumes "tokens_ok s"
  shows "tokens_ok (askQuestion idx s)"
proof (cases "idx < length (questions s)")
  case True
  let ?b = "bounded_speak (RQuestion idx) (question_speech idx (questions s ! idx)) (ask_prep idx s)"
  have "tok_key (askQuestion idx s) = tok_key (ask_prep idx s)"
    using True
    by (simp add: askQuestion_below tok_key_bounded_speak tok_key_unhandled_resume
        split: option.splits)
  then show ?thesis
    using tokens_ok_ask_prep [OF assms True] tokens_ok_key by blast
next
  case False
  have "tok_key (askQuestion idx s) = (questions s, [], answers s)"
    using False by (simp add: askQuestion_beyond tok_key_finishInterview)
  then show ?thesis using assms tokens_ok_cleared by blast
qed

lemma tokens_ok_handleAnswer:
  assumes "tokens_ok s" "oid \<in> set [''A'', ''B'', ''C'', ''D'']"
  shows "tokens_ok (handleAnswer q oid s)"
proof (cases "answerLocked s")
  case True
  then show ?thesis using assms by (simp add: handleAnswer_def)
next
  case False
  have m: "map (\<lambda>b. b_optionId (if b_optionId b = oid
                        then b\<lparr>b_disabled := True, b_selected := True\<rparr>
                        else b\<lparr>b_disabled := True\<rparr>)) bs = map b_optionId bs" for bs
    by (induction bs) simp_all
  have "tok_key (handleAnswer q oid s) =
      (questions s, map b_optionId (buttons s), (answers s)(String_nat q \<mapsto> oid))"
    using False by (simp add: handleAnswer_def Let_def page_defs tok_key_def o_def m)
  then show ?thesis
    using assms by (simp add: tok_key_def tokens_ok_def)
qed

lemma tokens_ok_on_click:
  assumes "tokens_ok s"
  shows "tokens_ok (on_click j s)"
proof (cases "j < length (buttons s) \<and> \<not> b_disabled (buttons s ! j)")
  case True
  then have "b_optionId (buttons s ! j) \<in> set [''A'', ''B'', ''C'', ''D'']"
    using assms by (simp add: tokens_ok_def list_all_length)
  then show ?thesis
    using True tokens_ok_handleAnswer [OF assms] by (simp add: on_click_def)
next
  case False
  then show ?thesis using assms by (auto simp: on_click_def)
qed

lemma tokens_ok_settle:
  assumes "tokens_ok s"
  shows "tokens_ok (settle i outcome s)"
proof (cases "rc_kind (races s ! i)")
  case RWelcome
  have c: "tokens_ok (close_race i s)"
    using assms tokens_ok_key [of "close_race i s" s] by simp
  have "tokens_ok (logged x (close_race i s))" for x
    using c tokens_ok_key [OF tok_key_logged] by blast
  then have "tokens_ok (case outcome of Inl err \<Rightarrow> logged (ConsoleWarn err) (close_race i s)
                   | Inr u \<Rightarrow> close_race i s)"
    using c by (cases outcome) simp_all
  then show ?thesis
    using RWelcome tokens_ok_askQuestion by (simp add: settle_def Let_def)
next
  case (RQuestion idx)
  have "tok_key (settle i outcome s) = tok_key s"
    using RQuestion by (simp add: settle_def Let_def tok_key_unhandled_resume)
  then show ?thesis using assms tokens_ok_key by blast
next
  case RFinishWait
  have "tok_key (settle i outcome s) = tok_key s"
    using RFinishWait by (simp add: settle_def Let_def tok_key_finish_score)
  then show ?thesis using assms tokens_ok_key by blast
next
  case (RFinishResult d)
  have "tok_key (settle i outcome s) = tok_key s"
    using RFinishResult by (simp add: settle_def Let_def tok_key_finish_show)
  then show ?thesis using assms tokens_ok_key by blast
qed

lemma tokens_ok_on_sdk_callback:
  assumes "tokens_ok s"
  shows "tokens_ok (on_sdk_callback i cb s)"
proof (cases "avatar s")
  case None
  then show ?thesis using assms by (simp add: on_sdk_callback_def)
next
  case (Some a)
  obtain a' es where sc: "speak_callback cb a = (a', es)" by (cases "speak_callback cb a")
  let ?s2 = "run_effects es
      (s\<lparr>avatar := Some a', races := (races s)[i := (races s ! i)\<lparr>rc_speaking := False\<rparr>]\<rparr>)"
  have "tok_key ?s2 = tok_key s" by (simp add: tok_key_run_effects)
  then have 2: "tokens_ok ?s2" using assms tokens_ok_key by blast
  then have "tokens_ok (settle i outcome ?s2)" for outcome by (rule tokens_ok_settle)
  then show ?thesis
    using Some sc 2 assms by (simp add: on_sdk_callback_def Let_def split: option.splits)
qed

lemma tokens_ok_on_timer:
  assumes "tokens_ok s"
  shows "tokens_ok (on_timer i s)"
proof -
  let ?s1 = "s\<lparr>races := (races s)[i := (races s ! i)\<lparr>rc_timer := False\<rparr>]\<rparr>"
  have 1: "tokens_ok ?s1" using assms tokens_ok_key [of ?s1 s] by simp
  then have "tokens_ok (settle i outcome ?s1)" for outcome by (rule tokens_ok_settle)
  then show ?thesis using 1 assms by (simp add: on_timer_def Let_def)
qed

lemma tokens_ok_on_delay:
  assumes "tokens_ok s"
  shows "tokens_ok (on_delay s)"
proof -
  have "tokens_ok (s\<lparr>pendingAdvances := pendingAdvances s - 1\<rparr>)"
    using assms tokens_ok_key [of "s\<lparr>pendingAdvances := pendingAdvances s - 1\<rparr>" s] by simp
  then show ?thesis
    using assms tokens_ok_askQuestion by (simp add: on_delay_def handleAnswer_resume_def)
qed

lemma tokens_ok_on_ice:
  assumes "tokens_ok s"
  shows "tokens_ok (on_ice st s)"
proof -
  have "tok_key (on_ice st s) = tok_key s"
    by (simp add: on_ice_def tok_key_callback tok_key_logged split: option.splits)
  then show ?thesis using assms tokens_ok_key by blast
qed

lemma tokens_ok_step: "tokens_ok s \<Longrightarrow> tokens_ok (step s e)"
  by (cases e)
     (simp_all add: step_def tokens_ok_on_click tokens_ok_on_sdk_callback tokens_ok_on_timer
        tokens_ok_on_delay tokens_ok_on_ice)

lemma tokens_ok_startInterview:
  assumes "tokens_ok s"
  shows "tokens_ok (startInterview s)"
proof -
  let ?p = "bounded_speak RWelcome welcomeText s"
  have 1: "tokens_ok (fst ?p)" using assms tokens_ok_key [OF tok_key_bounded_speak] by blast
  have "tokens_ok (logged x (fst ?p))" for x
    using 1 tokens_ok_key [OF tok_key_logged] by blast
  then show ?thesis
    using 1 by (simp add: startInterview_def split_beta tokens_ok_askQuestion split: option.splits)
qed

lemma tok_key_init_catch: "tok_key (init_catch err s) = tok_key s"
  by (simp add: init_catch_def tok_key_def setLoadingText_def logged_def)

lemma tokens_ok_init:
  assumes "tokens_ok s"
  shows "tokens_ok (init env s)"
proof -
  let ?s2 = "logged (Fetch ''/api/getIceToken'') (logged (Fetch ''/api/getSpeechToken'')
      (setLoadingText LoadingConnecting s))"
  have k2: "tok_key ?s2 = tok_key s" by (simp add: tok_key_def setLoadingText_def logged_def)
  show ?thesis
  proof (cases "promise_all2 (iceRejectsFirst env)
                 (token_chain ''Speech'' (speechFetch env)) (token_chain ''ICE'' (iceFetch env))")
    case (Inl err)
    have "tok_key (init_catch err ?s2) = tok_key s" by (simp only: tok_key_init_catch k2)
    then have "tokens_ok (init_catch err ?s2)" using assms tokens_ok_key by blast
    then show ?thesis using Inl by (simp add: init_def Let_def)
  next
    case (Inr p)
    obtain speechToken iceTokenRaw where p: "p = (speechToken, iceTokenRaw)" by (cases p)
    let ?s3 = "setLoadingText LoadingInitialising (?s2\<lparr>avatar := Some new_AvatarManager\<rparr>)"
    obtain a' es r where c: "connect (JSON_parse env) (startAvatar env) speechToken (region ?s3)
                                   iceTokenRaw new_AvatarManager = (a', es, r)"
      by (cases "connect (JSON_parse env) (startAvatar env) speechToken (region ?s3)
                                   iceTokenRaw new_AvatarManager")
    let ?s4 = "run_effects es (?s3\<lparr>avatar := Some a'\<rparr>)"
    have "tok_key ?s4 = tok_key s"
      by (simp add: tok_key_run_effects) (simp add: tok_key_def setLoadingText_def logged_def)
    then have c4: "tokens_ok ?s4" using assms tokens_ok_key by blast
    have "tokens_ok (init_catch err ?s4)" for err
      using c4 tokens_ok_key [OF tok_key_init_catch] by blast
    then have "tokens_ok (case r of Some err \<Rightarrow> init_catch err ?s4 | None \<Rightarrow> startInterview ?s4)"
      using tokens_ok_startInterview [OF c4] by (cases r) simp_all
    then show ?thesis using Inr p c by (simp add: init_def Let_def)
  qed
qed

lemma tokens_ok_reachable: "tokens_ok (run (init env (constructor c r)) evs)"
proof (rule run_invariant)
  show "tokens_ok (init env (constructor c r))"
    by (rule tokens_ok_init) (simp add: tokens_ok_def constructor_def)
qed (rule tokens_ok_step)

lemma option_token_ascii: "t \<in> set [''A'', ''B'', ''C'', ''D''] \<Longrightarrow> ascii t"
  by (auto simp: ascii_def)

lemma recorded_tokens:
  "(case answers (run (init env (constructor c r)) evs) k of None \<Rightarrow> [] | Some t \<Rightarrow> t)
     \<in> set [[], ''A'', ''B'', ''C'', ''D'']"
  using tokens_ok_reachable [of env c r evs]
  by (auto simp: tokens_ok_def split: option.splits)

lemma recorded_ascii:
  "ascii (case answers (run (init env (constructor c r)) evs) k of None \<Rightarrow> [] | Some t \<Rightarrow> t)"
  using recorded_tokens [of env c r evs k] by (auto simp: ascii_def)

section \<open>Scoring: the report for every answer record\<close>

text \<open>
  C1. For every answer record \<open>a\<close> (any map from strings to strings; a key may be
  missing, a token may be in lower case) the report of \<open>_scoreAnswers\<close> has one row per
  question, in the order of the question list, with the question's id, text, options
  and correct option; a row is correct exactly if its selection equals the correct
  option; \<open>score\<close> is the number of correct rows and \<open>total\<close> the number of questions,
  five; \<open>percentage\<close> is \<open>score / total * 100\<close> rounded to the nearest integer with a tie
  going up (with five questions, twenty times the score); the grade is Excellent
  exactly from 80, Good exactly from 60 to below 80, Average exactly from 40 to below
  60 and Needs Improvement exactly below 40. The selection of a row is the recorded
  token with \<open>a\<close> .. \<open>z\<close> replaced by \<open>A\<close> .. \<open>Z\<close>, and the empty string for a question
  never answered; this is stated for the tokens of ASCII characters, and in every
  state that a session of the controller reaches each recorded token is one of \<open>A\<close> ..
  \<open>D\<close>. The answers
  B, C, B, C, B give score 5 of 5, 100 percent, Excellent, and so do b, c, b, c, b; the
  answers b, C, none, a, none give the selections B, C, empty, A, empty, score 2,
  40 percent, Average.
\<close>

theorem scoreAnswers_spec:
  "map r_id (results (scoreAnswers a)) = map q_id QUESTIONS
   \<and> map r_text (results (scoreAnswers a)) = map q_text QUESTIONS
   \<and> map r_options (results (scoreAnswers a)) = map q_options QUESTIONS
   \<and> map r_correct (results (scoreAnswers a)) = map q_correct QUESTIONS
   \<and> list_all (\<lambda>row. r_is_correct row = (r_selected row = r_correct row)) (results (scoreAnswers a))
   \<and> (i < length QUESTIONS
        \<and> ascii (case a (String_nat (q_id (QUESTIONS ! i))) of None \<Rightarrow> [] | Some t \<Rightarrow> t) \<longrightarrow>
        r_selected (results (scoreAnswers a) ! i) =
          map (\<lambda>c. if 97 \<le> (of_char c :: nat) \<and> (of_char c :: nat) \<le> 122
                    then char_of ((of_char c :: nat) - 32) else c)
            (case a (String_nat (q_id (QUESTIONS ! i))) of None \<Rightarrow> [] | Some t \<Rightarrow> t)
        \<and> r_is_correct (results (scoreAnswers a) ! i) =
            (map (\<lambda>c. if 97 \<le> (of_char c :: nat) \<and> (of_char c :: nat) \<le> 122
                      then char_of ((of_char c :: nat) - 32) else c)
               (case a (String_nat (q_id (QUESTIONS ! i))) of None \<Rightarrow> [] | Some t \<Rightarrow> t)
             = q_correct (QUESTIONS ! i)))
   \<and> score (scoreAnswers a) = length (filter r_is_correct (results (scoreAnswers a)))
   \<and> total_count (scoreAnswers a) = length QUESTIONS
   \<and> total_count (scoreAnswers a) = 5
   \<and> percentage (scoreAnswers a) =
       \<lfloor>(of_nat (score (scoreAnswers a)) / of_nat (total_count (scoreAnswers a)) * 100 :: rat) + 1 / 2\<rfloor>
   \<and> percentage (scoreAnswers a) = 20 * int (score (scoreAnswers a))
   \<and> (grade (scoreAnswers a) = ''Excellent'') = (percentage (scoreAnswers a) \<ge> 80)
   \<and> (grade (scoreAnswers a) = ''Good'') =
       (60 \<le> percentage (scoreAnswers a) \<and> percentage (scoreAnswers a) < 80)
   \<and> (grade (scoreAnswers a) = ''Average'') =
       (40 \<le> percentage (scoreAnswers a) \<and> percentage (scoreAnswers a) < 60)
   \<and> (grade (scoreAnswers a) = ''Needs Improvement'') = (percentage (scoreAnswers a) < 40)
   \<and> (score (scoreAnswers [''1'' \<mapsto> ''B'', ''2'' \<mapsto> ''C'', ''3'' \<mapsto> ''B'', ''4'' \<mapsto> ''C'', ''5'' \<mapsto> ''B'']),
       total_count (scoreAnswers [''1'' \<mapsto> ''B'', ''2'' \<mapsto> ''C'', ''3'' \<mapsto> ''B'', ''4'' \<mapsto> ''C'', ''5'' \<mapsto> ''B'']),
       percentage (scoreAnswers [''1'' \<mapsto> ''B'', ''2'' \<mapsto> ''C'', ''3'' \<mapsto> ''B'', ''4'' \<mapsto> ''C'', ''5'' \<mapsto> ''B'']),
       grade (scoreAnswers [''1'' \<mapsto> ''B'', ''2'' \<mapsto> ''C'', ''3'' \<mapsto> ''B'', ''4'' \<mapsto> ''C'', ''5'' \<mapsto> ''B''])) =
      (5, 5, 100, ''Excellent'')
   \<and> (score (scoreAnswers [''1'' \<mapsto> ''b'', ''2'' \<mapsto> ''c'', ''3'' \<mapsto> ''b'', ''4'' \<mapsto> ''c'', ''5'' \<mapsto> ''b'']),
       percentage (scoreAnswers [''1'' \<mapsto> ''b'', ''2'' \<mapsto> ''c'', ''3'' \<mapsto> ''b'', ''4'' \<mapsto> ''c'', ''5'' \<mapsto> ''b'']),
       grade (scoreAnswers [''1'' \<mapsto> ''b'', ''2'' \<mapsto> ''c'', ''3'' \<mapsto> ''b'', ''4'' \<mapsto> ''c'', ''5'' \<mapsto> ''b'']),
       map r_selected (results (scoreAnswers
         [''1'' \<mapsto> ''b'', ''2'' \<mapsto> ''c'', ''3'' \<mapsto> ''b'', ''4'' \<mapsto> ''c'', ''5'' \<mapsto> ''b'']))) =
      (5, 100, ''Excellent'', [''B'', ''C'', ''B'', ''C'', ''B''])
   \<and> (score (scoreAnswers [''1'' \<mapsto> ''b'', ''2'' \<mapsto> ''C'', ''4'' \<mapsto> ''a'']),
       percentage (scoreAnswers [''1'' \<mapsto> ''b'', ''2'' \<mapsto> ''C'', ''4'' \<mapsto> ''a'']),
       grade (scoreAnswers [''1'' \<mapsto> ''b'', ''2'' \<mapsto> ''C'', ''4'' \<mapsto> ''a'']),
       map r_selected (results (scoreAnswers [''1'' \<mapsto> ''b'', ''2'' \<mapsto> ''C'', ''4'' \<mapsto> ''a''])),
       map r_is_correct (results (scoreAnswers [''1'' \<mapsto> ''b'', ''2'' \<mapsto> ''C'', ''4'' \<mapsto> ''a'']))) =
      (2, 40, ''Average'', [''B'', ''C'', [], ''A'', []], [True, True, False, False, False])
   \<and> (case answers (run (init env (constructor c r)) evs) k of None \<Rightarrow> [] | Some t \<Rightarrow> t)
       \<in> set [[], ''A'', ''B'', ''C'', ''D'']
   \<and> ascii (case answers (run (init env (constructor c r)) evs) k of None \<Rightarrow> [] | Some t \<Rightarrow> t)"
proof -
  have row: "i < length QUESTIONS
        \<and> ascii (case a (String_nat (q_id (QUESTIONS ! i))) of None \<Rightarrow> [] | Some t \<Rightarrow> t) \<longrightarrow>
        r_selected (results (scoreAnswers a) ! i) =
          map (\<lambda>c. if 97 \<le> (of_char c :: nat) \<and> (of_char c :: nat) \<le> 122
                    then char_of ((of_char c :: nat) - 32) else c)
            (case a (String_nat (q_id (QUESTIONS ! i))) of None \<Rightarrow> [] | Some t \<Rightarrow> t)
        \<and> r_is_correct (results (scoreAnswers a) ! i) =
            (map (\<lambda>c. if 97 \<le> (of_char c :: nat) \<and> (of_char c :: nat) \<le> 122
                      then char_of ((of_char c :: nat) - 32) else c)
               (case a (String_nat (q_id (QUESTIONS ! i))) of None \<Rightarrow> [] | Some t \<Rightarrow> t)
             = q_correct (QUESTIONS ! i))"
    using scoreAnswers_row [of i a]
    by (simp only: selected_of_case toUpperCase_ascii) blast
  have 3: "total_count (scoreAnswers a) = length QUESTIONS"
    by (rule scoreAnswers_fields)
  have 4: "total_count (scoreAnswers a) = 5"
    by (simp add: 3 length_QUESTIONS)
  have 5: "percentage (scoreAnswers a) =
       \<lfloor>(of_nat (score (scoreAnswers a)) / of_nat (total_count (scoreAnswers a)) * 100 :: rat) + 1 / 2\<rfloor>"
    by (subst scoreAnswers_fields(3)) (simp only: Math_round_def)
  have 6: "percentage (scoreAnswers a) = 20 * int (score (scoreAnswers a))"
    by (subst scoreAnswers_fields(3)) (simp only: 4 round_fifths)
  have g: "grade (scoreAnswers a) = grade_of (percentage (scoreAnswers a))"
    by (rule scoreAnswers_fields)
  have 7: "(grade (scoreAnswers a) = ''Excellent'') = (percentage (scoreAnswers a) \<ge> 80)"
    "(grade (scoreAnswers a) = ''Good'') =
       (60 \<le> percentage (scoreAnswers a) \<and> percentage (scoreAnswers a) < 80)"
    "(grade (scoreAnswers a) = ''Average'') =
       (40 \<le> percentage (scoreAnswers a) \<and> percentage (scoreAnswers a) < 60)"
    "(grade (scoreAnswers a) = ''Needs Improvement'') = (percentage (scoreAnswers a) < 40)"
    by (simp_all only: g grade_of_iff)
  show ?thesis
    by (intro conjI)
       (rule scoreAnswers_columns row scoreAnswers_count 3 4 5 6 7 all_correct_scenario
          lower_case_scenario mixed_scenario recorded_tokens recorded_ascii)+
qed

lemma lower_case_tokens:
  "ascii (case [''1'' \<mapsto> ''b'', ''2'' \<mapsto> ''C'', ''4'' \<mapsto> ''a''] (String_nat (q_id (QUESTIONS ! 0))) of
            None \<Rightarrow> [] | Some t \<Rightarrow> t)
   \<and> (case [''1'' \<mapsto> ''b'', ''2'' \<mapsto> ''C'', ''4'' \<mapsto> ''a''] (String_nat (q_id (QUESTIONS ! 0))) of
            None \<Rightarrow> [] | Some t \<Rightarrow> t) = ''b''
   \<and> q_correct (QUESTIONS ! 0) = ''B''
   \<and> map (\<lambda>c. if 97 \<le> (of_char c :: nat) \<and> (of_char c :: nat) \<le> 122
                    then char_of ((of_char c :: nat) - 32) else c) ''b'' = ''B''"
  by code_simp

theorem scoreAnswers_spec_witness:
  "(0::nat) < length QUESTIONS
   \<and> ascii (case [''1'' \<mapsto> ''b'', ''2'' \<mapsto> ''C'', ''4'' \<mapsto> ''a''] (String_nat (q_id (QUESTIONS ! 0))) of
            None \<Rightarrow> [] | Some t \<Rightarrow> t)
   \<and> r_selected (results (scoreAnswers [''1'' \<mapsto> ''b'', ''2'' \<mapsto> ''C'', ''4'' \<mapsto> ''a'']) ! 0) = ''B''
   \<and> r_is_correct (results (scoreAnswers [''1'' \<mapsto> ''b'', ''2'' \<mapsto> ''C'', ''4'' \<mapsto> ''a'']) ! 0)"
proof -
  let ?a = "[''1'' \<mapsto> ''b'', ''2'' \<mapsto> ''C'', ''4'' \<mapsto> ''a'']"
  let ?t = "case ?a (String_nat (q_id (QUESTIONS ! 0))) of None \<Rightarrow> [] | Some t \<Rightarrow> t"
  let ?up = "map (\<lambda>c. if 97 \<le> (of_char c :: nat) \<and> (of_char c :: nat) \<le> 122
                    then char_of ((of_char c :: nat) - 32) else c)"
  have l: "(0::nat) < length QUESTIONS" by (simp add: length_QUESTIONS)
  have t: "ascii ?t" "?t = ''b''" "q_correct (QUESTIONS ! 0) = ''B''" "?up ''b'' = ''B''"
    using lower_case_tokens by blast+
  have "0 < length QUESTIONS \<and> ascii ?t \<longrightarrow>
      r_selected (results (scoreAnswers ?a) ! 0) = ?up ?t
      \<and> r_is_correct (results (scoreAnswers ?a) ! 0) = (?up ?t = q_correct (QUESTIONS ! 0))"
    using scoreAnswers_spec [of ?a 0 good_env "(Inr (), Inr ())" None "[]" "[]"]
    by (elim conjE) assumption
  then have "r_selected (results (scoreAnswers ?a) ! 0) = ?up ?t
      \<and> r_is_correct (results (scoreAnswers ?a) ! 0) = (?up ?t = q_correct (QUESTIONS ! 0))"
    using l t(1) by blast
  then have "r_selected (results (scoreAnswers ?a) ! 0) = ''B''
      \<and> r_is_correct (results (scoreAnswers ?a) ! 0)"
    by (simp only: t(2,3,4))
  then show ?thesis using l t(1) by blast
qed

subsection \<open>Two states of a session that started well\<close>

lemma asking_first_glance:
  "glance asking_first =
     (True, 0,
      Some \<lparr>synthesizer = Some Handle, peerConn = Some Handle, isConnected = True, isSpeaking = True\<rparr>,
      [\<lparr>rc_kind = RWelcome, rc_open = False, rc_speaking = False, rc_timer = True\<rparr>,
       \<lparr>rc_kind = RQuestion 0, rc_open = True, rc_speaking = True, rc_timer = True\<rparr>],
      True, False, 0, [None, None, None, None, None])"
  by code_simp

lemma asking_first_calls: "calls asking_first = ([0], 0, [])"
  by code_simp

lemma awaiting_first_step: "awaiting_first = step asking_first (SdkCallback 1 completed)"
  by (simp add: awaiting_first_def asking_first_def run_def)

lemma awaiting_first_glance:
  "glance awaiting_first =
     (False, 0,
      Some \<lparr>synthesizer = Some Handle, peerConn = Some Handle, isConnected = True, isSpeaking = False\<rparr>,
      [\<lparr>rc_kind = RWelcome, rc_open = False, rc_speaking = False, rc_timer = True\<rparr>,
       \<lparr>rc_kind = RQuestion 0, rc_open = False, rc_speaking = False, rc_timer = True\<rparr>],
      True, False, 0, [None, None, None, None, None])"
  by code_simp

lemma awaiting_first_calls: "calls awaiting_first = ([0], 0, [])"
  by code_simp

lemma first_click_glance:
  "glance (step awaiting_first (Click 1)) =
     (True, 0,
      Some \<lparr>synthesizer = Some Handle, peerConn = Some Handle, isConnected = True, isSpeaking = False\<rparr>,
      [\<lparr>rc_kind = RWelcome, rc_open = False, rc_speaking = False, rc_timer = True\<rparr>,
       \<lparr>rc_kind = RQuestion 0, rc_open = False, rc_speaking = False, rc_timer = True\<rparr>],
      True, False, 1, [Some ''B'', None, None, None, None])"
  by code_simp

lemma asking_first_eval:
  "answerLocked asking_first" "currentIdx asking_first = 0"
  "avatar asking_first =
       Some \<lparr>synthesizer = Some Handle, peerConn = Some Handle, isConnected = True, isSpeaking = True\<rparr>"
  "1 < length (races asking_first)"
  "rc_kind (races asking_first ! 1) = RQuestion 0"
  "rc_open (races asking_first ! 1)" "rc_speaking (races asking_first ! 1)"
  "rc_timer (races asking_first ! 1)"
  "0 < length (questions asking_first)" "\<not> speak_refused asking_first"
  using asking_first_glance by (simp_all add: glance_def)

lemma awaiting_first_eval:
  "\<not> answerLocked awaiting_first" "currentIdx awaiting_first = 0"
  "answers awaiting_first ''1'' = None"
  "answers (step awaiting_first (Click 1)) ''1'' = Some ''B''"
  "answerLocked (step awaiting_first (Click 1))"
  using awaiting_first_glance first_click_glance by (simp_all add: glance_def)

lemma boot_glance:
  "glance boot =
     (True, 0,
      Some \<lparr>synthesizer = Some Handle, peerConn = Some Handle, isConnected = True, isSpeaking = True\<rparr>,
      [\<lparr>rc_kind = RWelcome, rc_open = True, rc_speaking = True, rc_timer = True\<rparr>],
      True, False, 0, [None, None, None, None, None])"
  by code_simp

lemma second_answer_glance:
  "glance (run boot second_answer) =
     (True, 0,
      Some \<lparr>synthesizer = Some Handle, peerConn = Some Handle, isConnected = True, isSpeaking = False\<rparr>,
      [\<lparr>rc_kind = RWelcome, rc_open = False, rc_speaking = False, rc_timer = True\<rparr>,
       \<lparr>rc_kind = RQuestion 0, rc_open = False, rc_speaking = False, rc_timer = False\<rparr>],
      True, False, 2, [Some ''C'', None, None, None, None])"
  by code_simp

lemma second_answer_calls:
  "calls (run boot second_answer) = ([0], 0, [(1, ''B''), (1, ''C'')])"
  by code_simp

lemma one_answer_glance:
  "glance (run boot [SdkCallback 0 completed, TimerFired 1, Click 1]) =
     (True, 0,
      Some \<lparr>synthesizer = Some Handle, peerConn = Some Handle, isConnected = True, isSpeaking = True\<rparr>,
      [\<lparr>rc_kind = RWelcome, rc_open = False, rc_speaking = False, rc_timer = True\<rparr>,
       \<lparr>rc_kind = RQuestion 0, rc_open = False, rc_speaking = True, rc_timer = False\<rparr>],
      True, False, 1, [Some ''B'', None, None, None, None])"
  by code_simp

lemma boot_eval:
  "races boot = [\<lparr>rc_kind = RWelcome, rc_open = True, rc_speaking = True, rc_timer = True\<rparr>]"
  "pendingAdvances boot = 0" "answerLocked boot"
  using boot_glance by (simp_all add: glance_def)

lemma asking_first_boot: "asking_first = step boot (SdkCallback 0 completed)"
  by (simp add: asking_first_def run_def)

lemma asking_first_waits:
  "punctual boot [SdkCallback 0 completed]" "open_waits asking_first = 1"
  "\<not> stale asking_first (SdkCallback 1 completed)"
  "\<not> stale boot (SdkCallback 0 completed)"
  "speak_issued boot asking_first" "earlier_closed boot asking_first"
  using boot_eval asking_first_glance
  by (simp_all add: stale_def open_waits_def glance_def speak_issued_def earlier_closed_def)

section \<open>Submitting an answer\<close>

text \<open>
  One call of \<open>_handleAnswer\<close>. While \<open>answerLocked\<close> is true the call changes nothing at all.
  While it is false the call sets \<open>answerLocked\<close> in its synchronous part, stores exactly
  the given option under the given question id, leaves the position and the
  outstanding requests alone and starts one 700 ms delay; a further call made before
  anything unlocks is ignored; and when the delay ends the controller calls
  \<open>_askQuestion\<close> with the position plus one. In every state a session can reach, the
  question id that a click hands to \<open>_handleAnswer\<close> is the id of the current question.
\<close>

lemma handleAnswer_contract:
  "(answerLocked s \<longrightarrow> handleAnswer q oid s = s)
   \<and> (\<not> answerLocked s \<longrightarrow>
        answerLocked (handleAnswer q oid s)
        \<and> answers (handleAnswer q oid s) = (answers s)(String_nat q \<mapsto> oid)
        \<and> currentIdx (handleAnswer q oid s) = currentIdx s
        \<and> races (handleAnswer q oid s) = races s
        \<and> pendingAdvances (handleAnswer q oid s) = pendingAdvances s + 1
        \<and> handleAnswer q' oid' (handleAnswer q oid s) = handleAnswer q oid s
        \<and> on_delay (handleAnswer q oid s) =
            askQuestion (currentIdx s + 1) ((handleAnswer q oid s)\<lparr>pendingAdvances := pendingAdvances s\<rparr>))
   \<and> on_click j (run (init env (constructor c r)) evs) =
       (if j < length (buttons (run (init env (constructor c r)) evs))
           \<and> \<not> b_disabled (buttons (run (init env (constructor c r)) evs) ! j)
        then handleAnswer
               (q_id (questions (run (init env (constructor c r)) evs)
                        ! currentIdx (run (init env (constructor c r)) evs)))
               (b_optionId (buttons (run (init env (constructor c r)) evs) ! j))
               (run (init env (constructor c r)) evs)
        else run (init env (constructor c r)) evs)"
proof -
  let ?t = "run (init env (constructor c r)) evs"
  have 1: "answerLocked s \<longrightarrow> handleAnswer q oid s = s"
    by (simp add: handleAnswer_def)
  have f: "answerLocked (handleAnswer q oid s)"
    "\<not> answerLocked s \<Longrightarrow> answers (handleAnswer q oid s) = (answers s)(String_nat q \<mapsto> oid)"
    "currentIdx (handleAnswer q oid s) = currentIdx s"
    "races (handleAnswer q oid s) = races s"
    "\<not> answerLocked s \<Longrightarrow> pendingAdvances (handleAnswer q oid s) = pendingAdvances s + 1"
    by (simp_all add: handleAnswer_def Let_def page_defs)
  have g: "handleAnswer q' oid' (handleAnswer q oid s) = handleAnswer q oid s"
    using f(1) by (simp add: handleAnswer_def [of q' oid'])
  have h: "\<not> answerLocked s \<Longrightarrow> on_delay (handleAnswer q oid s) =
            askQuestion (currentIdx s + 1) ((handleAnswer q oid s)\<lparr>pendingAdvances := pendingAdvances s\<rparr>)"
    by (simp add: on_delay_def handleAnswer_resume_def f)
  have inv: "buttons_current ?t" by (rule buttons_current_reachable)
  have "j < length (buttons ?t) \<Longrightarrow> b_questionId (buttons ?t ! j) = q_id (questions ?t ! currentIdx ?t)"
    using inv by (simp add: buttons_current_def bound_ids_def)
  then have 3: "on_click j ?t =
       (if j < length (buttons ?t) \<and> \<not> b_disabled (buttons ?t ! j)
        then handleAnswer (q_id (questions ?t ! currentIdx ?t)) (b_optionId (buttons ?t ! j)) ?t
        else ?t)"
    by (simp add: on_click_def)
  show ?thesis using 1 f g h 3 by blast
qed

lemma handleAnswer_contract_witness:
  "answerLocked asking_first \<and> handleAnswer 1 ''B'' asking_first = asking_first
   \<and> \<not> answerLocked awaiting_first
   \<and> answerLocked (handleAnswer 1 ''B'' awaiting_first)
   \<and> answers (handleAnswer 1 ''B'' awaiting_first) = (answers awaiting_first)(String_nat 1 \<mapsto> ''B'')
   \<and> pendingAdvances (handleAnswer 1 ''B'' awaiting_first) = pendingAdvances awaiting_first + 1
   \<and> handleAnswer 1 ''C'' (handleAnswer 1 ''B'' awaiting_first) = handleAnswer 1 ''B'' awaiting_first"
proof -
  have l: "answerLocked asking_first" by (rule asking_first_eval)
  have u: "\<not> answerLocked awaiting_first" by (rule awaiting_first_eval)
  show ?thesis
    using l u
      handleAnswer_contract [of asking_first 1 "''B''" 1 "''C''" 0 good_env "(Inr (), Inr ())" None "[]"]
      handleAnswer_contract [of awaiting_first 1 "''B''" 1 "''C''" 0 good_env "(Inr (), Inr ())" None "[]"]
    by blast
qed

text \<open>
  C3. The session below has one question asked, question 1. Its speech hangs past the
  30 s bound: the timer unlocks the options, the user clicks B, which is accepted and
  stored and locks. The hanging speech ends within the 700 ms delay; its speak-end
  callback unlocks the options again, and a click on C is accepted as well: two
  answers are accepted for question 1, the second replaces the first in the record,
  and two delays are running.
\<close>

theorem second_answer_accepted:
  "answerLocked (run boot [SdkCallback 0 completed, TimerFired 1, Click 1])
   \<and> answers (run boot [SdkCallback 0 completed, TimerFired 1, Click 1]) ''1'' = Some ''B''
   \<and> pendingAdvances (run boot [SdkCallback 0 completed, TimerFired 1, Click 1]) = 1
   \<and> second_answer = [SdkCallback 0 completed, TimerFired 1, Click 1] @ [SdkCallback 1 completed, Click 2]
   \<and> asked (log (run boot second_answer)) = [0]
   \<and> accepted (log (run boot second_answer)) = [(1, ''B''), (1, ''C'')]
   \<and> answers (run boot second_answer) ''1'' = Some ''C''
   \<and> pendingAdvances (run boot second_answer) = 2"
  using one_answer_glance second_answer_glance second_answer_calls
  by (simp add: glance_def calls_def second_answer_def)

section \<open>How a question's speech ends\<close>

text \<open>
  C4. Take any state in which the speech of question \<open>idx\<close> is outstanding and awaited.
  Whether the SDK then reports completion, reports a failure or calls the error
  callback, or the 30 s timer fires first, the controller ends up with \<open>answerLocked\<close>
  false, the option buttons enabled, the status dot on connected and the hint hidden,
  and the await is over. Position, answers, lock, buttons and pending delays are the
  same after the timeout and after any callback; the timeout differs in the warning
  it logs (and in the wording of the status label, which \<open>flow\<close> leaves out). The rest
  of \<open>_askQuestion\<close> after the await returns normally for every outcome, so no exception
  leaves it; and a speech the avatar refuses at once leaves the question asked and
  unlocked as well.
\<close>

theorem speak_settles_unlocked:
  assumes "avatar s = Some a" and "i < length (races s)" and "rc_kind (races s ! i) = RQuestion idx"
    and "rc_open (races s ! i)" and "rc_speaking (races s ! i)" and "rc_timer (races s ! i)"
  shows "\<not> answerLocked (on_sdk_callback i cb s) \<and> \<not> answerLocked (on_timer i s)
    \<and> flow (on_sdk_callback i cb s) =
        (currentIdx s, answers s, False, map (\<lambda>b. b\<lparr>b_disabled := False\<rparr>) (buttons s), pendingAdvances s)
    \<and> flow (on_timer i s) = flow (on_sdk_callback i cb s)
    \<and> dot (on_sdk_callback i cb s) = ''connected'' \<and> dot (on_timer i s) = ''connected''
    \<and> \<not> hint (on_sdk_callback i cb s) \<and> \<not> hint (on_timer i s)
    \<and> \<not> rc_open (races (on_sdk_callback i cb s) ! i) \<and> \<not> rc_open (races (on_timer i s) ! i)
    \<and> log (on_timer i s) = log s @ [ConsoleWarn ''Speech timeout'']
    \<and> log (on_sdk_callback i (SdkResult SynthesizingAudioCompleted d) s) = log s @ [Av OnSpeakEnd, Av Resolve]
    \<and> log (on_sdk_callback i (SdkError err) s) =
        log s @ [Av OnSpeakEnd, Av (ConsoleError err), Av (Reject err), ConsoleWarn err]
    \<and> (\<exists>t'. askQuestion_resume outcome t = Inr t')
    \<and> (idx' < length (questions t) \<and> speak_refused t \<longrightarrow>
         \<not> answerLocked (askQuestion idx' t) \<and> currentIdx (askQuestion idx' t) = idx'
         \<and> answers (askQuestion idx' t) = answers t)"
proof -
  have tm: "on_timer i s = unlockOptions (logged (ConsoleWarn ''Speech timeout'')
      (s\<lparr>races := (races s)[i := (races s ! i)\<lparr>rc_timer := False, rc_open := False\<rparr>]\<rparr>))"
    using assms by (simp add: on_timer_question)
  have t1: "\<not> answerLocked (on_timer i s)" "dot (on_timer i s) = ''connected''" "\<not> hint (on_timer i s)"
    "flow (on_timer i s) =
        (currentIdx s, answers s, False, map (\<lambda>b. b\<lparr>b_disabled := False\<rparr>) (buttons s), pendingAdvances s)"
    "log (on_timer i s) = log s @ [ConsoleWarn ''Speech timeout'']"
    by (simp_all add: tm unlocked_fields) (simp_all add: callback_defs page_defs)
  have t2: "\<not> rc_open (races (on_timer i s) ! i)"
    using assms(2) by (simp add: tm callback_defs page_defs)
  have c: "\<not> answerLocked (on_sdk_callback i cb s) \<and> dot (on_sdk_callback i cb s) = ''connected''
      \<and> \<not> hint (on_sdk_callback i cb s) \<and> \<not> rc_open (races (on_sdk_callback i cb s) ! i)
      \<and> flow (on_sdk_callback i cb s) =
        (currentIdx s, answers s, False, map (\<lambda>b. b\<lparr>b_disabled := False\<rparr>) (buttons s), pendingAdvances s)"
  proof (cases cb)
    case (SdkResult reason d')
    then show ?thesis using assms(2)
      by (cases reason)
         (simp_all add: on_sdk_callback_question [OF assms(1-5)] flow_def mark_done_def
            callback_defs page_defs)
  next
    case (SdkError e')
    then show ?thesis using assms(2)
      by (simp add: on_sdk_callback_question [OF assms(1-5)] flow_def mark_done_def
            callback_defs page_defs)
  qed
  have l1: "log (on_sdk_callback i (SdkResult SynthesizingAudioCompleted d) s) =
      log s @ [Av OnSpeakEnd, Av Resolve]"
    by (simp add: on_sdk_callback_question [OF assms(1-5)] mark_done_def callback_defs page_defs)
  have l2: "log (on_sdk_callback i (SdkError err) s) =
        log s @ [Av OnSpeakEnd, Av (ConsoleError err), Av (Reject err), ConsoleWarn err]"
    by (simp add: on_sdk_callback_question [OF assms(1-5)] mark_done_def callback_defs page_defs)
  have r: "\<exists>t'. askQuestion_resume outcome t = Inr t'"
    by (cases outcome) (simp_all add: askQuestion_resume_def)
  have q: "idx' < length (questions t) \<and> speak_refused t \<longrightarrow>
         \<not> answerLocked (askQuestion idx' t) \<and> currentIdx (askQuestion idx' t) = idx'
         \<and> answers (askQuestion idx' t) = answers t"
  proof (intro impI conjI)
    assume h: "idx' < length (questions t) \<and> speak_refused t"
    show "\<not> answerLocked (askQuestion idx' t)" using h by (simp add: askQuestion_locked)
    show "answers (askQuestion idx' t) = answers t" by (simp add: askQuestion_locked)
    have rf: "speak_refused (ask_prep idx' t)" using h by simp
    obtain e' where e': "snd (bounded_speak (RQuestion idx') (question_speech idx' (questions t ! idx'))
        (ask_prep idx' t)) = Some e'"
      using bounded_speak_cases(1) [OF rf] by blast
    have k: "key (askQuestion idx' t) = key (ask_prep idx' t)"
      using h e' by (simp add: askQuestion_below key_unhandled_resume key_bounded_speak)
    show "currentIdx (askQuestion idx' t) = idx'"
      using k by (simp add: key_def ask_prep_def page_defs renderQuestion_def)
  qed
  show ?thesis using t1 t2 c l1 l2 r q by simp
qed

theorem speak_settles_unlocked_witness:
  "avatar asking_first =
       Some \<lparr>synthesizer = Some Handle, peerConn = Some Handle, isConnected = True, isSpeaking = True\<rparr>
   \<and> 1 < length (races asking_first) \<and> rc_kind (races asking_first ! 1) = RQuestion 0
   \<and> rc_open (races asking_first ! 1) \<and> rc_speaking (races asking_first ! 1)
   \<and> rc_timer (races asking_first ! 1)
   \<and> \<not> answerLocked (on_sdk_callback 1 completed asking_first)
   \<and> \<not> answerLocked (on_timer 1 asking_first)
   \<and> flow (on_timer 1 asking_first) = flow (on_sdk_callback 1 completed asking_first)
   \<and> log (on_timer 1 asking_first) = log asking_first @ [ConsoleWarn ''Speech timeout'']"
proof -
  have h: "avatar asking_first =
       Some \<lparr>synthesizer = Some Handle, peerConn = Some Handle, isConnected = True, isSpeaking = True\<rparr>"
    "1 < length (races asking_first)" "rc_kind (races asking_first ! 1) = RQuestion 0"
    "rc_open (races asking_first ! 1)" "rc_speaking (races asking_first ! 1)"
    "rc_timer (races asking_first ! 1)"
    by (rule asking_first_eval)+
  show ?thesis
    using h speak_settles_unlocked [OF h, where cb = completed]
    by blast
qed

section \<open>The lock between a question and its answer\<close>

text \<open>
  C5, as the claim states it, does not hold: the claim wants \<open>answerLocked\<close> to stay true
  until the answer is accepted, and no step to set it to false before. In the session
  below question 1 is being spoken and locked; the SDK reports the end of that speech,
  the speak-end callback sets \<open>answerLocked\<close> to false, and no answer has been accepted.
\<close>

theorem unlocked_before_answer:
  "answerLocked asking_first \<and> asked (log asking_first) = [0]
   \<and> \<not> answerLocked (step asking_first (SdkCallback 1 completed))
   \<and> accepted (log (step asking_first (SdkCallback 1 completed))) = []
   \<and> answers (step asking_first (SdkCallback 1 completed)) ''1'' = None"
  using asking_first_glance asking_first_calls awaiting_first_glance awaiting_first_calls
  by (simp add: glance_def calls_def awaiting_first_step)

text \<open>
  C5, amended. \<open>_askQuestion\<close> sets \<open>answerLocked\<close> before it speaks, and \<open>answerLocked\<close> is
  true after \<open>_askQuestion\<close> whenever the avatar takes the speech. In a session in which
  no speech ends after its own timer has fired, \<open>answerLocked\<close> is true for as long as
  the controller awaits a speech or the delay that follows an accepted answer. A step
  other than such a late end of a speech sets \<open>answerLocked\<close> from true to false only if
  it is the SDK's callback for a speech that is awaited (the speech of a question or
  of the result, or any awaited speech when the avatar refuses to speak on), the 30 s
  timer of a question's speech that is awaited, or a step that asks a question while
  the avatar refuses to speak. The answers change only by a click, only while
  \<open>answerLocked\<close> is false, and the click sets it to true. What the late end of a speech
  does to the lock is not part of this statement.
\<close>

theorem lock_discipline:
  "answerLocked (ask_prep idx s)
   \<and> (idx < length (questions s) \<and> \<not> speak_refused s \<longrightarrow> answerLocked (askQuestion idx s))
   \<and> (punctual (init env (constructor c r)) evs
        \<and> 0 < open_waits (run (init env (constructor c r)) evs) \<longrightarrow>
        answerLocked (run (init env (constructor c r)) evs))
   \<and> (answerLocked s \<and> \<not> answerLocked (step s e) \<and> \<not> stale s e \<longrightarrow>
        (\<exists>i cb. e = SdkCallback i cb \<and> i < length (races s) \<and> rc_speaking (races s ! i)
             \<and> rc_open (races s ! i)
             \<and> ((\<exists>idx. rc_kind (races s ! i) = RQuestion idx)
                  \<or> (\<exists>d. rc_kind (races s ! i) = RFinishResult d)
                  \<or> speak_refused s))
        \<or> (\<exists>i idx. e = TimerFired i \<and> i < length (races s) \<and> rc_open (races s ! i)
               \<and> rc_timer (races s ! i) \<and> rc_kind (races s ! i) = RQuestion idx)
        \<or> (speak_refused s \<and>
             (e = DelayElapsed
              \<or> (\<exists>i. e = TimerFired i \<and> i < length (races s) \<and> rc_open (races s ! i)
                     \<and> rc_timer (races s ! i) \<and> rc_kind (races s ! i) = RWelcome))))
   \<and> (answers (step s e) \<noteq> answers s \<longrightarrow>
        (\<exists>j. e = Click j) \<and> \<not> answerLocked s \<and> answerLocked (step s e))"
proof -
  have 1: "answerLocked (ask_prep idx s)" by (rule ask_prep_fields)
  have 2: "idx < length (questions s) \<and> \<not> speak_refused s \<longrightarrow> answerLocked (askQuestion idx s)"
    by (simp add: askQuestion_locked)
  have 5: "punctual (init env (constructor c r)) evs
        \<and> 0 < open_waits (run (init env (constructor c r)) evs) \<longrightarrow>
        answerLocked (run (init env (constructor c r)) evs)"
    using wait_ok_reachable [of env c r evs] by (simp add: wait_ok_def)
  have 3: "answerLocked s \<and> \<not> answerLocked (step s e) \<and> \<not> stale s e \<longrightarrow>
        (\<exists>i cb. e = SdkCallback i cb \<and> i < length (races s) \<and> rc_speaking (races s ! i)
             \<and> rc_open (races s ! i)
             \<and> ((\<exists>idx. rc_kind (races s ! i) = RQuestion idx)
                  \<or> (\<exists>d. rc_kind (races s ! i) = RFinishResult d)
                  \<or> speak_refused s))
        \<or> (\<exists>i idx. e = TimerFired i \<and> i < length (races s) \<and> rc_open (races s ! i)
               \<and> rc_timer (races s ! i) \<and> rc_kind (races s ! i) = RQuestion idx)
        \<or> (speak_refused s \<and>
             (e = DelayElapsed
              \<or> (\<exists>i. e = TimerFired i \<and> i < length (races s) \<and> rc_open (races s ! i)
                     \<and> rc_timer (races s ! i) \<and> rc_kind (races s ! i) = RWelcome)))"
  proof (cases e)
    case (Click j)
    then show ?thesis by (auto simp: step_def on_click_fields)
  next
    case (SdkCallback i cb)
    then show ?thesis using on_sdk_callback_unlocks [of s i cb] by (simp add: step_def)
  next
    case (TimerFired i)
    then show ?thesis using on_timer_unlocks [of s i] by (auto simp: step_def)
  next
    case DelayElapsed
    then show ?thesis using on_delay_locked [of s] by (auto simp: step_def)
  next
    case (IceStateChange st)
    then show ?thesis by (simp add: step_def on_ice_fields)
  qed
  have 4: "answers (step s e) \<noteq> answers s \<longrightarrow>
        (\<exists>j. e = Click j) \<and> \<not> answerLocked s \<and> answerLocked (step s e)"
    using on_click_fields(2) [of _ s]
    by (cases e)
       (auto simp: step_def on_sdk_callback_answers on_timer_answers on_delay_answers on_ice_fields)
  show ?thesis by (intro conjI) (rule 1 2 5 3 4)+
qed

theorem lock_discipline_witness:
  "0 < length (questions asking_first) \<and> \<not> speak_refused asking_first
   \<and> answerLocked (askQuestion 0 asking_first)
   \<and> punctual (init good_env (constructor (Inr (), Inr ()) None)) [SdkCallback 0 completed]
   \<and> 0 < open_waits (run (init good_env (constructor (Inr (), Inr ()) None)) [SdkCallback 0 completed])
   \<and> answerLocked (run (init good_env (constructor (Inr (), Inr ()) None)) [SdkCallback 0 completed])
   \<and> answerLocked asking_first \<and> \<not> answerLocked (step asking_first (SdkCallback 1 completed))
   \<and> \<not> stale asking_first (SdkCallback 1 completed)
   \<and> rc_open (races asking_first ! 1) \<and> rc_kind (races asking_first ! 1) = RQuestion 0
   \<and> answers (step awaiting_first (Click 1)) \<noteq> answers awaiting_first
   \<and> \<not> answerLocked awaiting_first \<and> answerLocked (step awaiting_first (Click 1))"
proof -
  let ?i = "init good_env (constructor (Inr (), Inr ()) None)"
  have a: "0 < length (questions asking_first)" "\<not> speak_refused asking_first"
    "answerLocked asking_first" "rc_open (races asking_first ! 1)"
    "rc_kind (races asking_first ! 1) = RQuestion 0"
    using asking_first_eval by blast+
  have p: "punctual ?i [SdkCallback 0 completed]" "0 < open_waits (run ?i [SdkCallback 0 completed])"
    using asking_first_waits(1,2) by (simp_all add: boot_def asking_first_def)
  have u: "\<not> answerLocked (step asking_first (SdkCallback 1 completed))"
    "\<not> stale asking_first (SdkCallback 1 completed)"
    using awaiting_first_eval(1) asking_first_waits(3) by (simp_all add: awaiting_first_step)
  have "answers (step awaiting_first (Click 1)) ''1'' \<noteq> answers awaiting_first ''1''"
    using awaiting_first_eval(3,4) by simp
  then have b: "answers (step awaiting_first (Click 1)) \<noteq> answers awaiting_first"
    by metis
  have c: "\<not> answerLocked awaiting_first" by (rule awaiting_first_eval)
  note T1 = lock_discipline [of 0 asking_first good_env "(Inr (), Inr ())" None
      "[SdkCallback 0 completed]" "SdkCallback 1 completed"]
  note T2 = lock_discipline [of 0 awaiting_first good_env "(Inr (), Inr ())" None
      "[SdkCallback 0 completed]" "Click 1"]
  have 1: "answerLocked (askQuestion 0 asking_first)" using T1 a by blast
  have 2: "answerLocked (run ?i [SdkCallback 0 completed])" using T1 p by blast
  have 3: "answerLocked (step awaiting_first (Click 1))" using T2 b by blast
  show ?thesis using a p u b c 1 2 3 by blast
qed

section \<open>One call per question, one finish\<close>

text \<open>
  C2. The session below follows the intended course for the welcome and the first
  four questions. The speech of question 5 then hangs past its 30 s bound: the timer
  unlocks the options and the user clicks B, which is accepted and locks. The hanging
  speech ends within the 700 ms delay; its speak-end callback unlocks the options
  again, and a second click on B is accepted as well. Each accepted click starts its
  own delay, each delay ends in \<open>_askQuestion(5)\<close>, and the finish routine runs twice.
\<close>

lemma late_speech_end_calls:
  "calls (run boot late_speech_end) =
     ([0, 1, 2, 3, 4, 5, 5], 2,
      [(1, ''B''), (2, ''C''), (3, ''B''), (4, ''C''), (5, ''B''), (5, ''B'')])"
  by code_simp

theorem finish_invoked_twice:
  "asked (log (run boot late_speech_end)) = [0, 1, 2, 3, 4, 5, 5]
   \<and> finishes (log (run boot late_speech_end)) = 2
   \<and> accepted (log (run boot late_speech_end)) =
       [(1, ''B''), (2, ''C''), (3, ''B''), (4, ''C''), (5, ''B''), (5, ''B'')]"
  using late_speech_end_calls by (simp add: calls_def)

section \<open>What the late end of a speech does\<close>

text \<open>
  The statements about the lock and about one wait at a time leave out the sessions
  in which a speech ends after its own timer has fired. This is such a
  session: the welcome hangs, its timer fires and question 1 is asked; the welcome
  then ends, and its speak-end callback unlocks the options while question 1 is being
  spoken. A click is accepted, and after the delay question 2 is asked while the
  speech of question 1 is still awaited: two races are open.
\<close>

lemma late_welcome_end_glance:
  "glance (run boot late_welcome_end) =
     (True, 1,
      Some \<lparr>synthesizer = Some Handle, peerConn = Some Handle, isConnected = True, isSpeaking = True\<rparr>,
      [\<lparr>rc_kind = RWelcome, rc_open = False, rc_speaking = False, rc_timer = False\<rparr>,
       \<lparr>rc_kind = RQuestion 0, rc_open = True, rc_speaking = True, rc_timer = True\<rparr>,
       \<lparr>rc_kind = RQuestion 1, rc_open = True, rc_speaking = True, rc_timer = True\<rparr>],
      True, False, 0, [Some ''B'', None, None, None, None])"
  by code_simp

lemma late_welcome_end_calls:
  "calls (run boot late_welcome_end) = ([0, 1], 0, [(1, ''B'')])"
  by code_simp

lemma late_welcome_end_waits:
  "\<not> punctual boot late_welcome_end \<and> open_waits (run boot late_welcome_end) = 2
   \<and> asked (log (run boot late_welcome_end)) = [0, 1]"
proof -
  have "stale (step boot (TimerFired 0)) (SdkCallback 0 completed)"
    by code_simp
  then have "\<not> punctual boot late_welcome_end"
    by (simp add: late_welcome_end_def)
  then show ?thesis
    using late_welcome_end_glance late_welcome_end_calls
    by (simp add: glance_def calls_def open_waits_def)
qed

section \<open>The speech-input controller: one bounded wait at a time\<close>

subsection \<open>Every handler keeps at most one wait open\<close>

lemmas callback_v_defs = onConnected_v_def onDisconnected_v_def onSpeakStart_v_def onSpeakEnd_v_def
  callback_v_def showMic_def showTranscript_def logged_v_def

lemma open_ops_ops: "ops s' = ops s \<Longrightarrow> open_ops s' = open_ops s"
  by (simp add: ops_def open_ops_def)

lemma ops_callback_v: "ops (callback_v e s) = ops s"
  by (cases e) (simp_all add: ops_def callback_v_defs)

lemma ops_logged_v: "ops (logged_v x s) = ops s"
  by (simp add: ops_def logged_v_def)

lemma ops_run_effects_v: "ops (run_effects_v es s) = ops s"
  by (induction es arbitrary: s) (simp_all add: ops_callback_v ops_logged_v)

lemma open_ops_run_effects_v [simp]: "open_ops (run_effects_v es s) = open_ops s"
  by (rule open_ops_ops) (rule ops_run_effects_v)

lemma open_ops_simps [simp]:
  "open_ops (logged_v x s) = open_ops s"
  "open_ops (showMic b s) = open_ops s"
  "open_ops (showTranscript t s) = open_ops s"
  "open_ops (speak_resume outcome s) = open_ops s"
  "open_ops (s\<lparr>avatar_v := a\<rparr>) = open_ops s"
  "open_ops (s\<lparr>currentIdx_v := n\<rparr>) = open_ops s"
  "open_ops (s\<lparr>recognizer_script := sc\<rparr>) = open_ops s"
  "open_ops (s\<lparr>finished_v := b\<rparr>) = open_ops s"
  "open_ops (ack_done idx s) = Suc (open_ops s)"
  by (simp_all add: open_ops_def logged_v_def showMic_def showTranscript_def speak_resume_def
      ack_done_def split: sum.splits)


lemma open_ops_add_race_v [simp]:
  "open_ops (add_race_v r s) = (if rc_open r then Suc (open_ops s) else open_ops s)"
  by (simp add: open_ops_def add_race_v_def)

lemma open_ops_callback_v [simp]: "open_ops (callback_v e s) = open_ops s"
  by (rule open_ops_ops) (rule ops_callback_v)

lemma speak_v_ops:
  "open_ops (fst (speak_v k t s)) = (if speak_refused_v s then open_ops s else Suc (open_ops s))"
  "(snd (speak_v k t s) = None) = (\<not> speak_refused_v s)"
  by (auto simp: speak_v_def speak_refused_v_def speak_def Let_def split: option.splits)

lemma speak_v_Some: "snd (speak_v k t s) = Some e \<Longrightarrow> speak_refused_v s"
  using speak_v_ops(2) [of k t s] by auto

lemma listen_resume_ops: "open_ops (listen_resume idx v s) = Suc (open_ops s)"
  by (auto simp: listen_resume_def Let_def split_beta speak_v_ops dest: speak_v_Some
      split: option.splits)

lemma open_ops_listens_upd:
  "open_ops (s\<lparr>listens := listens s @ [l]\<rparr>) = (if l_open l then Suc (open_ops s) else open_ops s)"
  by (simp add: open_ops_def)

lemma listenForAnswer_ops: "open_ops (listenForAnswer idx s) = Suc (open_ops s)"
proof -
  let ?s = "s\<lparr>recognizer_script := tl (recognizer_script s)\<rparr>"
  have l: "open_ops (t\<lparr>listens := listens ?s @ [x]\<rparr>) = (if l_open x then Suc (open_ops t) else open_ops t)"
    if "listens t = listens ?s" for t x
    using open_ops_listens_upd [of t x] that by simp
  show ?thesis
    by (cases "next_setup s";
        simp add: listenForAnswer_def Let_def listen_resume_ops showMic_def;
        simp add: open_ops_def)
qed

lemma closing_done_ops: "open_ops (closing_done s) = open_ops s"
  by (simp add: closing_done_def split: option.splits sum.splits prod.splits)

lemma finishInterview_v_ops: "open_ops (finishInterview_v s) \<le> Suc (open_ops s)"
  by (auto simp: finishInterview_v_def Let_def split_beta speak_v_ops closing_done_ops
      dest: speak_v_Some split: option.splits)

lemma speak_refused_v_simps [simp]:
  "speak_refused_v (logged_v x s) = speak_refused_v s"
  "speak_refused_v (showTranscript t s) = speak_refused_v s"
  "speak_refused_v (showMic b s) = speak_refused_v s"
  "speak_refused_v (s\<lparr>currentIdx_v := n\<rparr>) = speak_refused_v s"
  by (simp_all add: speak_refused_v_def logged_v_def showTranscript_def showMic_def)

lemma questions_v_logged [simp]: "questions_v (logged_v x s) = questions_v s"
  by (simp add: logged_v_def)

lemma askQuestion_v_ops: "open_ops (askQuestion_v idx s) \<le> Suc (open_ops s)"
proof (cases "idx \<ge> length (questions_v s)")
  case True
  then show ?thesis
    using finishInterview_v_ops [of "logged_v (AskQuestion idx) s"]
    by (simp add: askQuestion_v_def Let_def)
next
  case False
  then show ?thesis
    by (auto simp: askQuestion_v_def Let_def split_beta speak_v_ops listenForAnswer_ops
        dest: speak_v_Some split: option.splits)
qed

lemma settle_v_ops:
  assumes "i < length (races_v s)" "rc_open (races_v s ! i)"
  shows "open_ops (settle_v i outcome s) \<le> open_ops s"
proof -
  let ?s0 = "s\<lparr>races_v := (races_v s)[i := (races_v s ! i)\<lparr>rc_open := False\<rparr>]\<rparr>"
  have "Suc (length (filter rc_open ((races_v s)[i := (races_v s ! i)\<lparr>rc_open := False\<rparr>])))
      = length (filter rc_open (races_v s))"
    using assms by (intro filter_update_off) simp_all
  then have c: "Suc (open_ops ?s0) = open_ops s" by (simp add: open_ops_def)
  show ?thesis
  proof (cases "rc_kind (races_v s ! i)")
    case VWelcome
    then show ?thesis using c askQuestion_v_ops [of 0 "speak_resume outcome ?s0"]
      by (simp add: settle_v_def Let_def)
  next
    case (VQuestion idx)
    then show ?thesis using c by (simp add: settle_v_def Let_def listenForAnswer_ops)
  next
    case (VAck idx)
    then show ?thesis using c by (simp add: settle_v_def Let_def)
  next
    case VClosing
    then show ?thesis using c by (simp add: settle_v_def Let_def closing_done_ops)
  qed
qed

lemma open_ops_races_same:
  "rc_open (f (races_v s ! i)) = rc_open (races_v s ! i) \<Longrightarrow>
     open_ops (s\<lparr>races_v := (races_v s)[i := f (races_v s ! i)]\<rparr>) = open_ops s"
  using filter_update_same [of rc_open f "races_v s" i] by (simp add: open_ops_def)

lemma open_ops_listens_same:
  "l_open (f (listens s ! j)) = l_open (listens s ! j) \<Longrightarrow>
     open_ops (s\<lparr>listens := (listens s)[j := f (listens s ! j)]\<rparr>) = open_ops s"
  using filter_update_same [of l_open f "listens s" j] by (simp add: open_ops_def)

lemma on_sdk_callback_v_ops: "open_ops (on_sdk_callback_v i cb s) \<le> open_ops s"
proof (cases "avatar_v s")
  case None
  then show ?thesis by (simp add: on_sdk_callback_v_def)
next
  case (Some a)
  show ?thesis
  proof (cases "i < length (races_v s) \<and> rc_speaking (races_v s ! i)")
    case False
    then show ?thesis using Some by (auto simp: on_sdk_callback_v_def)
  next
    case True
    obtain a' es where sc: "speak_callback cb a = (a', es)" by (cases "speak_callback cb a")
    let ?s1 = "s\<lparr>avatar_v := Some a',
                 races_v := (races_v s)[i := (races_v s ! i)\<lparr>rc_speaking := False\<rparr>]\<rparr>"
    let ?s2 = "run_effects_v es ?s1"
    have o1: "open_ops ?s1 = open_ops s"
      using open_ops_races_same [of "\<lambda>r. r\<lparr>rc_speaking := False\<rparr>" s i] by (simp add: open_ops_def)
    have r2: "races_v ?s2 = races_v ?s1"
      using ops_run_effects_v [of es ?s1] by (simp add: ops_def)
    have len: "i < length (races_v ?s2)" using True r2 by simp
    have "open_ops (settle_v i outcome ?s2) \<le> open_ops ?s2" if "rc_open (races_v ?s2 ! i)" for outcome
      using settle_v_ops [OF len that] .
    then show ?thesis using Some True sc o1
      by (simp add: on_sdk_callback_v_def Let_def split: option.splits)
  qed
qed

lemma on_timer_v_ops: "open_ops (on_timer_v i s) \<le> open_ops s"
proof (cases "i < length (races_v s) \<and> rc_timer (races_v s ! i)")
  case False
  then show ?thesis by (auto simp: on_timer_v_def)
next
  case True
  let ?s1 = "s\<lparr>races_v := (races_v s)[i := (races_v s ! i)\<lparr>rc_timer := False\<rparr>]\<rparr>"
  have o1: "open_ops ?s1 = open_ops s"
    using open_ops_races_same [of "\<lambda>r. r\<lparr>rc_timer := False\<rparr>" s i] by simp
  have len: "i < length (races_v ?s1)" using True by simp
  have "open_ops (settle_v i (Inl ''timeout'') ?s1) \<le> open_ops ?s1" if "rc_open (races_v ?s1 ! i)"
    using settle_v_ops [OF len that] .
  then show ?thesis using True o1 by (simp add: on_timer_v_def Let_def)
qed

lemma resolve_listen_ops:
  assumes "j < length (listens s)"
  shows "open_ops (resolve_listen j v s) \<le> open_ops s"
proof (cases "l_open (listens s ! j)")
  case False
  then show ?thesis by (simp add: resolve_listen_def)
next
  case True
  let ?s0 = "s\<lparr>listens := (listens s)[j := (listens s ! j)\<lparr>l_open := False\<rparr>]\<rparr>"
  have "Suc (length (filter l_open ((listens s)[j := (listens s ! j)\<lparr>l_open := False\<rparr>])))
      = length (filter l_open (listens s))"
    using assms True by (intro filter_update_off) simp_all
  then have "Suc (open_ops ?s0) = open_ops s" by (simp add: open_ops_def)
  then show ?thesis using True by (simp add: resolve_listen_def listen_resume_ops)
qed

lemma listen_events_ops:
  "open_ops (on_recognizer_result j reason txt s) \<le> open_ops s"
  "open_ops (on_recognizer_error j err s) \<le> open_ops s"
  "open_ops (on_listen_timer j s) \<le> open_ops s"
proof -
  have a: "open_ops (resolve_listen j v (showMic False (s\<lparr>listens := (listens s)[j := f (listens s ! j)]\<rparr>)))
      \<le> open_ops s"
    if "j < length (listens s)" "l_open (f (listens s ! j)) = l_open (listens s ! j)" for f v
  proof -
    let ?t = "showMic False (s\<lparr>listens := (listens s)[j := f (listens s ! j)]\<rparr>)"
    have "j < length (listens ?t)" using that by (simp add: showMic_def)
    then have "open_ops (resolve_listen j v ?t) \<le> open_ops ?t" by (rule resolve_listen_ops)
    then show ?thesis using open_ops_listens_same [of f s j] that by simp
  qed
  show "open_ops (on_recognizer_result j reason txt s) \<le> open_ops s"
    using a [of "\<lambda>l. l\<lparr>l_timer := False, l_recognizer := RecognizerClosed, l_callback := False\<rparr>"]
    by (simp add: on_recognizer_result_def Let_def)
  show "open_ops (on_recognizer_error j err s) \<le> open_ops s"
    using a [of "\<lambda>l. l\<lparr>l_timer := False, l_recognizer := RecognizerClosed, l_callback := False\<rparr>"]
    by (simp add: on_recognizer_error_def Let_def)
  show "open_ops (on_listen_timer j s) \<le> open_ops s"
    using a [of "\<lambda>l. l\<lparr>l_timer := False, l_recognizer := RecognizerClosed\<rparr>"]
    by (simp add: on_listen_timer_def Let_def)
qed

lemma on_delay_v_ops: "open_ops (on_delay_v s) \<le> open_ops s"
proof (cases "delays_v s")
  case Nil
  then show ?thesis by (simp add: on_delay_v_def)
next
  case (Cons idx rest)
  have "Suc (open_ops (s\<lparr>delays_v := rest\<rparr>)) = open_ops s" using Cons by (simp add: open_ops_def)
  then show ?thesis using Cons askQuestion_v_ops [of "idx + 1" "s\<lparr>delays_v := rest\<rparr>"]
    by (simp add: on_delay_v_def)
qed

lemma on_ice_v_ops: "open_ops (on_ice_v st s) = open_ops s"
  by (simp add: on_ice_v_def split: option.splits del: run_effects_v.simps)

lemma step_v_ops: "open_ops (step_v s e) \<le> open_ops s"
  by (cases e)
     (simp_all add: step_v_def on_sdk_callback_v_ops on_timer_v_ops listen_events_ops
        on_delay_v_ops on_ice_v_ops)

lemma run_v_ops: "open_ops (run_v s evs) \<le> open_ops s"
  unfolding run_v_def
proof (induction evs arbitrary: s)
  case Nil
  then show ?case by simp
next
  case (Cons e evs)
  have "open_ops (foldl step_v (step_v s e) evs) \<le> open_ops (step_v s e)" by (rule Cons.IH)
  then show ?case using step_v_ops [of s e] by simp
qed

lemma startInterview_v_ops: "open_ops (startInterview_v s) \<le> Suc (open_ops s)"
proof (cases "snd (speak_v VWelcome welcomeText_v s)")
  case None
  then have "\<not> speak_refused_v s" using speak_v_ops(2) [of VWelcome welcomeText_v s] by simp
  then have "open_ops (fst (speak_v VWelcome welcomeText_v s)) = Suc (open_ops s)"
    by (simp add: speak_v_ops(1))
  then show ?thesis using None by (simp add: startInterview_v_def split_beta)
next
  case (Some err)
  then have "speak_refused_v s" by (rule speak_v_Some)
  then have "open_ops (fst (speak_v VWelcome welcomeText_v s)) = open_ops s"
    by (simp add: speak_v_ops)
  then show ?thesis
    using Some askQuestion_v_ops [of 0 "speak_resume (Inl err) (fst (speak_v VWelcome welcomeText_v s))"]
    by (simp add: startInterview_v_def split_beta)
qed

lemma open_ops_init_updates [simp]:
  "open_ops (s\<lparr>loadingText_v := lt\<rparr>) = open_ops s"
  "open_ops (s\<lparr>speechToken_v := tk\<rparr>) = open_ops s"
  "open_ops (init_catch_v err s) = open_ops s"
  by (simp_all add: open_ops_def init_catch_v_def logged_v_def)

lemma init_v_step: "open_ops (init_v env s) \<le> Suc (open_ops s)"
proof -
  have st: "open_ops (startInterview_v t) \<le> Suc n" if "open_ops t = n" for t n
    using startInterview_v_ops [of t] that by simp
  show ?thesis
    by (auto simp: init_v_def Let_def split_beta intro!: st split: sum.splits option.splits)
qed

lemma init_v_ops: "open_ops (init_v env (constructor_v c sc r)) \<le> 1"
  using init_v_step [of env "constructor_v c sc r"]
  by (simp add: open_ops_def constructor_v_def)

subsection \<open>Requests are only ever appended\<close>

lemma extends_refl [simp]: "extends s s"
  by (simp add: extends_def)

lemma extends_trans: "extends s t \<Longrightarrow> extends t u \<Longrightarrow> extends s u"
  unfolding extends_def
  by (metis length_take min.absorb2 nat_le_linear take_all take_take min.commute)

lemma extends_ops: "ops t = ops s \<Longrightarrow> extends s t"
  by (simp add: ops_def extends_def)

lemma extends_simple [simp]:
  "extends s (logged_v x s)" "extends s (showMic b s)" "extends s (showTranscript t s)"
  "extends s (speak_resume outcome s)" "extends s (ack_done idx s)"
  "extends s (s\<lparr>currentIdx_v := n\<rparr>)" "extends s (s\<lparr>recognizer_script := sc\<rparr>)"
  "extends s (s\<lparr>delays_v := ds\<rparr>)" "extends s (s\<lparr>finished_v := b\<rparr>)"
  "extends s (run_effects_v es s)"
  by (simp_all add: extends_def logged_v_def showMic_def showTranscript_def speak_resume_def
      ack_done_def split: sum.splits)
     (use ops_run_effects_v [of es s] in \<open>simp_all add: ops_def\<close>)

lemma extends_speak_v: "extends s (fst (speak_v k t s))"
proof -
  have a: "extends s (add_race_v r u)" if "ops u = ops s" for r u
    using that by (simp add: extends_def add_race_v_def ops_def)
  have b: "ops (run_effects_v es (s\<lparr>avatar_v := x\<rparr>)) = ops s" for es x
    using ops_run_effects_v [of es "s\<lparr>avatar_v := x\<rparr>"] by (simp add: ops_def)
  show ?thesis
    by (auto simp: speak_v_def Let_def split_beta ops_def intro!: a b split: option.splits sum.splits)
qed

lemma extends_listen_resume: "extends s (listen_resume idx v s)"
proof -
  define s1 where "s1 = (if v \<noteq> [] then showTranscript v s else s)"
  have 1: "extends s s1" by (simp add: s1_def)
  have 2: "extends s1 (fst (speak_v (VAck idx) (response_for idx) s1))" by (rule extends_speak_v)
  have 3: "extends s (fst (speak_v (VAck idx) (response_for idx) s1))"
    using extends_trans [OF 1 2] .
  have 4: "extends s (ack_done idx (speak_resume (Inl err) (fst (speak_v (VAck idx) (response_for idx) s1))))" for err
    using 3 extends_trans extends_simple(4,5) by blast
  have "listen_resume idx v s =
      (case snd (speak_v (VAck idx) (response_for idx) s1) of
         None \<Rightarrow> fst (speak_v (VAck idx) (response_for idx) s1)
       | Some err \<Rightarrow> ack_done idx (speak_resume (Inl err) (fst (speak_v (VAck idx) (response_for idx) s1))))"
    unfolding listen_resume_def Let_def s1_def by (simp add: split_beta)
  then show ?thesis
    using 3 4 by (cases "snd (speak_v (VAck idx) (response_for idx) s1)") simp_all
qed

lemma extends_append_listen: "extends s (t\<lparr>listens := listens s @ [l]\<rparr>)" if "races_v t = races_v s"
  using that by (simp add: extends_def)

lemma extends_listenForAnswer: "extends s (listenForAnswer idx s)"
proof -
  have b: "extends s (listen_resume idx [] u)" if "extends s u" for u
    using that extends_listen_resume extends_trans by blast
  show ?thesis
  proof (cases "next_setup s")
    case SetupOk
    then show ?thesis
      by (simp add: listenForAnswer_def Let_def showMic_def logged_v_def extends_def)
  next
    case (ConfigThrows err)
    then show ?thesis
      by (simp add: listenForAnswer_def Let_def showMic_def)
         (rule b, simp add: extends_def)
  next
    case (RecognizeThrows err)
    then show ?thesis
      by (simp add: listenForAnswer_def Let_def showMic_def)
         (rule b, simp add: extends_def)
  qed
qed

lemma extends_closing_done: "extends s (closing_done s)"
proof -
  have "ops (run_effects_v es (s\<lparr>avatar_v := x\<rparr>)) = ops s" for es x
    using ops_run_effects_v [of es "s\<lparr>avatar_v := x\<rparr>"] by (simp add: ops_def)
  then have "extends s ((run_effects_v es (s\<lparr>avatar_v := x\<rparr>))\<lparr>finished_v := True\<rparr>)" for es x
    by (simp add: extends_def ops_def)
  then show ?thesis
    by (simp add: closing_done_def split: option.splits sum.splits prod.splits)
qed

lemma extends_finishInterview_v: "extends s (finishInterview_v s)"
proof -
  let ?s1 = "showTranscript [] (showMic False (logged_v FinishInterview s))"
  have 1: "extends s ?s1" by (simp add: extends_def showTranscript_def showMic_def logged_v_def)
  have 3: "extends s (fst (speak_v VClosing closingText ?s1))"
    using extends_trans [OF 1 extends_speak_v] .
  have 4: "extends s (closing_done (speak_resume (Inl err) (fst (speak_v VClosing closingText ?s1))))" for err
    using 3 extends_trans extends_simple(4) extends_closing_done by blast
  show ?thesis
    using 3 4 by (simp add: finishInterview_v_def Let_def split_beta split: option.splits)
qed

lemma extends_askQuestion_v: "extends s (askQuestion_v idx s)"
proof (cases "idx \<ge> length (questions_v s)")
  case True
  then show ?thesis
    using extends_trans [OF extends_simple(1) extends_finishInterview_v]
    by (simp add: askQuestion_v_def Let_def)
next
  case False
  let ?s2 = "showTranscript [] ((logged_v (AskQuestion idx) s)\<lparr>currentIdx_v := idx\<rparr>)"
  let ?q = "questions_v s ! idx"
  have 1: "extends s ?s2" by (simp add: extends_def showTranscript_def logged_v_def)
  have 3: "extends s (fst (speak_v (VQuestion idx) (question_speech_v idx ?q) ?s2))"
    using extends_trans [OF 1 extends_speak_v] .
  have 4: "extends s (listenForAnswer idx (speak_resume (Inl err)
      (fst (speak_v (VQuestion idx) (question_speech_v idx ?q) ?s2))))" for err
    using 3 extends_trans extends_simple(4) extends_listenForAnswer by blast
  show ?thesis
    using False 3 4
    by (simp add: askQuestion_v_def Let_def split_beta logged_v_def split: option.splits)
qed

lemma settled_zero:
  assumes "open_ops s0 = 0" and "extends s0 s'"
    and "length (races_v s) = length (races_v s0)" and "length (listens s) = length (listens s0)"
  shows "earlier_settled s s'"
proof -
  have "filter rc_open (races_v s0) = []" "filter l_open (listens s0) = []"
    using assms(1) by (simp_all add: open_ops_def)
  then have "list_all (\<lambda>r. \<not> rc_open r) (races_v s0)" "list_all (\<lambda>l. \<not> l_open l) (listens s0)"
    by (simp_all add: filter_empty_conv list_all_iff)
  then show ?thesis
    using assms(2-4) by (simp add: earlier_settled_def extends_def)
qed

lemma not_issued: "length (races_v s') = length (races_v s) \<Longrightarrow>
    length (listens s') = length (listens s) \<Longrightarrow> \<not> issued s s'"
  by (simp add: issued_def)

lemma settle_v_settled:
  assumes "open_ops s \<le> 1" "i < length (races_v s)" "rc_open (races_v s ! i)"
  shows "earlier_settled s (settle_v i outcome s)"
proof -
  let ?s0 = "s\<lparr>races_v := (races_v s)[i := (races_v s ! i)\<lparr>rc_open := False\<rparr>]\<rparr>"
  have "Suc (length (filter rc_open ((races_v s)[i := (races_v s ! i)\<lparr>rc_open := False\<rparr>])))
      = length (filter rc_open (races_v s))"
    using assms by (intro filter_update_off) simp_all
  then have "Suc (open_ops ?s0) = open_ops s" by (simp add: open_ops_def)
  then have z: "open_ops ?s0 = 0" using assms(1) by simp
  have e: "extends ?s0 (settle_v i outcome s)"
  proof (cases "rc_kind (races_v s ! i)")
    case VWelcome
    then show ?thesis using extends_trans [OF extends_simple(4) extends_askQuestion_v]
      by (simp add: settle_v_def Let_def)
  next
    case (VQuestion idx)
    then show ?thesis using extends_trans [OF extends_simple(4) extends_listenForAnswer]
      by (simp add: settle_v_def Let_def)
  next
    case (VAck idx)
    then show ?thesis using extends_trans [OF extends_simple(4) extends_simple(5)]
      by (simp add: settle_v_def Let_def)
  next
    case VClosing
    then show ?thesis using extends_trans [OF extends_simple(4) extends_closing_done]
      by (simp add: settle_v_def Let_def)
  qed
  show ?thesis by (rule settled_zero [OF z e]) simp_all
qed

subsection \<open>A step that issues a request has settled the wait before it\<close>

lemma earlier_settled_shift:
  "length (races_v s) = length (races_v t) \<Longrightarrow> length (listens s) = length (listens t) \<Longrightarrow>
     earlier_settled t u \<Longrightarrow> earlier_settled s u"
  by (simp add: earlier_settled_def)

lemma issued_shift:
  "length (races_v s) = length (races_v t) \<Longrightarrow> length (listens s) = length (listens t) \<Longrightarrow>
     issued s u = issued t u"
  by (simp add: issued_def)

lemma on_sdk_callback_v_issue:
  assumes "open_ops s \<le> 1" "issued s (on_sdk_callback_v i cb s)"
  shows "earlier_settled s (on_sdk_callback_v i cb s)"
proof (cases "avatar_v s")
  case None
  then show ?thesis using assms by (simp add: on_sdk_callback_v_def issued_def)
next
  case (Some a)
  show ?thesis
  proof (cases "i < length (races_v s) \<and> rc_speaking (races_v s ! i)")
    case False
    then show ?thesis using Some assms by (auto simp: on_sdk_callback_v_def issued_def)
  next
    case True
    obtain a' es where sc: "speak_callback cb a = (a', es)" by (cases "speak_callback cb a")
    define s2 where "s2 = run_effects_v es (s\<lparr>avatar_v := Some a',
                 races_v := (races_v s)[i := (races_v s ! i)\<lparr>rc_speaking := False\<rparr>]\<rparr>)"
    have o: "ops s2 = (ops (s\<lparr>avatar_v := Some a',
                 races_v := (races_v s)[i := (races_v s ! i)\<lparr>rc_speaking := False\<rparr>]\<rparr>))"
      unfolding s2_def by (rule ops_run_effects_v)
    then have r2: "races_v s2 = (races_v s)[i := (races_v s ! i)\<lparr>rc_speaking := False\<rparr>]"
      and l2: "listens s2 = listens s" and d2: "delays_v s2 = delays_v s"
      by (simp_all add: ops_def)
    have len: "length (races_v s2) = length (races_v s)" "length (listens s2) = length (listens s)"
      using r2 l2 by simp_all
    have o2: "open_ops s2 = open_ops s"
      using filter_update_same [of rc_open "\<lambda>r. r\<lparr>rc_speaking := False\<rparr>" "races_v s" i]
      by (simp add: open_ops_def r2 l2 d2)
    have eq: "on_sdk_callback_v i cb s =
        (case settlement es of
           Some outcome \<Rightarrow> (if rc_open (races_v s2 ! i) then settle_v i outcome s2 else s2)
         | None \<Rightarrow> s2)"
      using Some True sc unfolding s2_def by (simp add: on_sdk_callback_v_def Let_def)
    show ?thesis
    proof (cases "\<exists>outcome. settlement es = Some outcome \<and> rc_open (races_v s2 ! i)")
      case False
      then have "on_sdk_callback_v i cb s = s2" using eq by (auto split: option.splits)
      then show ?thesis using assms(2) len by (simp add: issued_def)
    next
      case True
      then obtain outcome where st: "settlement es = Some outcome" "rc_open (races_v s2 ! i)" by blast
      then have e2: "on_sdk_callback_v i cb s = settle_v i outcome s2" using eq by simp
      have "i < length (races_v s2)" using \<open>i < length (races_v s) \<and> rc_speaking (races_v s ! i)\<close> len by simp
      then have "earlier_settled s2 (settle_v i outcome s2)"
        using settle_v_settled [of s2 i outcome] o2 assms(1) st(2) by simp
      then show ?thesis using e2 len earlier_settled_shift [of s s2] by simp
    qed
  qed
qed

lemma on_timer_v_issue:
  assumes "open_ops s \<le> 1" "issued s (on_timer_v i s)"
  shows "earlier_settled s (on_timer_v i s)"
proof (cases "i < length (races_v s) \<and> rc_timer (races_v s ! i)")
  case False
  then show ?thesis using assms by (auto simp: on_timer_v_def issued_def)
next
  case True
  define s1 where "s1 = s\<lparr>races_v := (races_v s)[i := (races_v s ! i)\<lparr>rc_timer := False\<rparr>]\<rparr>"
  have len: "length (races_v s1) = length (races_v s)" "length (listens s1) = length (listens s)"
    by (simp_all add: s1_def)
  have o1: "open_ops s1 = open_ops s"
    using open_ops_races_same [of "\<lambda>r. r\<lparr>rc_timer := False\<rparr>" s i] by (simp add: s1_def)
  have eq: "on_timer_v i s = (if rc_open (races_v s1 ! i) then settle_v i (Inl ''timeout'') s1 else s1)"
    using True unfolding s1_def by (simp add: on_timer_v_def Let_def)
  show ?thesis
  proof (cases "rc_open (races_v s1 ! i)")
    case False
    then show ?thesis using eq assms(2) len by (simp add: issued_def)
  next
    case op: True
    have "i < length (races_v s1)" using True len by simp
    then have "earlier_settled s1 (settle_v i (Inl ''timeout'') s1)"
      using settle_v_settled [of s1 i] o1 assms(1) op by simp
    then show ?thesis using eq op len earlier_settled_shift [of s s1] by simp
  qed
qed

lemma resolve_listen_issue:
  assumes "open_ops s \<le> 1" "j < length (listens s)" "issued s (resolve_listen j v s)"
  shows "earlier_settled s (resolve_listen j v s)"
proof (cases "l_open (listens s ! j)")
  case False
  then show ?thesis using assms by (simp add: resolve_listen_def issued_def)
next
  case True
  define s0 where "s0 = s\<lparr>listens := (listens s)[j := (listens s ! j)\<lparr>l_open := False\<rparr>]\<rparr>"
  have "Suc (length (filter l_open ((listens s)[j := (listens s ! j)\<lparr>l_open := False\<rparr>])))
      = length (filter l_open (listens s))"
    using assms True by (intro filter_update_off) simp_all
  then have "Suc (open_ops s0) = open_ops s" by (simp add: open_ops_def s0_def)
  then have z: "open_ops s0 = 0" using assms(1) by simp
  have eq: "resolve_listen j v s = listen_resume (l_idx (listens s ! j)) v s0"
    using True by (simp add: resolve_listen_def s0_def)
  have "earlier_settled s (listen_resume (l_idx (listens s ! j)) v s0)"
    by (rule settled_zero [OF z extends_listen_resume]) (simp_all add: s0_def)
  then show ?thesis using eq by simp
qed

lemma listen_events_issue:
  assumes "open_ops s \<le> 1"
  shows "issued s (on_recognizer_result j reason txt s) \<Longrightarrow>
           earlier_settled s (on_recognizer_result j reason txt s)"
    and "issued s (on_recognizer_error j err s) \<Longrightarrow> earlier_settled s (on_recognizer_error j err s)"
    and "issued s (on_listen_timer j s) \<Longrightarrow> earlier_settled s (on_listen_timer j s)"
proof -
  have a: "earlier_settled s (resolve_listen j v (showMic False (s\<lparr>listens := (listens s)[j := f (listens s ! j)]\<rparr>)))"
    if "j < length (listens s)" "l_open (f (listens s ! j)) = l_open (listens s ! j)"
       "issued s (resolve_listen j v (showMic False (s\<lparr>listens := (listens s)[j := f (listens s ! j)]\<rparr>)))"
    for f v
  proof -
    define t where "t = showMic False (s\<lparr>listens := (listens s)[j := f (listens s ! j)]\<rparr>)"
    have len: "length (races_v s) = length (races_v t)" "length (listens s) = length (listens t)"
      by (simp_all add: t_def showMic_def)
    have ot: "open_ops t = open_ops s"
      using open_ops_listens_same [of f s j] that(2) by (simp add: t_def)
    have "issued t (resolve_listen j v t)" using that(3) issued_shift [OF len] by (simp add: t_def)
    then have "earlier_settled t (resolve_listen j v t)"
      using resolve_listen_issue [of t j v] ot assms that(1) len by simp
    then show ?thesis using earlier_settled_shift [OF len] by (simp add: t_def)
  qed
  show "issued s (on_recognizer_result j reason txt s) \<Longrightarrow>
           earlier_settled s (on_recognizer_result j reason txt s)"
    using a [of "\<lambda>l. l\<lparr>l_timer := False, l_recognizer := RecognizerClosed, l_callback := False\<rparr>"]
    by (auto simp: on_recognizer_result_def Let_def issued_def split: if_splits)
  show "issued s (on_recognizer_error j err s) \<Longrightarrow> earlier_settled s (on_recognizer_error j err s)"
    using a [of "\<lambda>l. l\<lparr>l_timer := False, l_recognizer := RecognizerClosed, l_callback := False\<rparr>"]
    by (auto simp: on_recognizer_error_def Let_def issued_def split: if_splits)
  show "issued s (on_listen_timer j s) \<Longrightarrow> earlier_settled s (on_listen_timer j s)"
    using a [of "\<lambda>l. l\<lparr>l_timer := False, l_recognizer := RecognizerClosed\<rparr>"]
    by (auto simp: on_listen_timer_def Let_def issued_def split: if_splits)
qed

lemma on_delay_v_issue:
  assumes "open_ops s \<le> 1" "issued s (on_delay_v s)"
  shows "earlier_settled s (on_delay_v s)"
proof (cases "delays_v s")
  case Nil
  then show ?thesis using assms by (simp add: on_delay_v_def issued_def)
next
  case (Cons idx rest)
  have "Suc (open_ops (s\<lparr>delays_v := rest\<rparr>)) = open_ops s" using Cons by (simp add: open_ops_def)
  then have z: "open_ops (s\<lparr>delays_v := rest\<rparr>) = 0" using assms(1) by simp
  have "earlier_settled s (askQuestion_v (idx + 1) (s\<lparr>delays_v := rest\<rparr>))"
    by (rule settled_zero [OF z extends_askQuestion_v]) simp_all
  then show ?thesis using Cons by (simp add: on_delay_v_def)
qed

lemma on_ice_v_issue: "\<not> issued s (on_ice_v st s)"
proof -
  have "ops (run_effects_v [OnDisconnected] (s\<lparr>avatar_v := x\<rparr>)) = ops s" for x
    using ops_run_effects_v [of "[OnDisconnected]" "s\<lparr>avatar_v := x\<rparr>"] by (simp add: ops_def)
  then have "\<not> issued s (run_effects_v [OnDisconnected] (s\<lparr>avatar_v := x\<rparr>))" for x
    by (simp add: issued_def ops_def)
  then show ?thesis
    by (simp add: on_ice_v_def issued_def split: option.splits del: run_effects_v.simps)
qed

lemma step_v_issue:
  assumes "open_ops s \<le> 1" "issued s (step_v s e)"
  shows "earlier_settled s (step_v s e)"
  using assms on_ice_v_issue
  by (cases e)
     (simp_all add: step_v_def on_sdk_callback_v_issue on_timer_v_issue listen_events_issue
        on_delay_v_issue)

subsection \<open>The listen requests of a reachable state\<close>

lemma listens_run_effects_v [simp]: "listens (run_effects_v es s) = listens s"
  using ops_run_effects_v [of es s] by (simp add: ops_def)

lemma races_run_effects_v [simp]: "races_v (run_effects_v es s) = races_v s"
  using ops_run_effects_v [of es s] by (simp add: ops_def)

lemma delays_run_effects_v [simp]: "delays_v (run_effects_v es s) = delays_v s"
  using ops_run_effects_v [of es s] by (simp add: ops_def)

lemma listens_simple [simp]:
  "listens (logged_v x s) = listens s" "listens (showMic b s) = listens s"
  "listens (showTranscript t s) = listens s" "listens (speak_resume outcome s) = listens s"
  "listens (ack_done idx s) = listens s" "listens (add_race_v r s) = listens s"
  by (simp_all add: logged_v_def showMic_def showTranscript_def speak_resume_def ack_done_def
      add_race_v_def split: sum.splits)

lemma listens_speak_v [simp]: "listens (fst (speak_v k t s)) = listens s"
  by (simp add: speak_v_def Let_def split_beta split: option.splits sum.splits)

lemma listens_listen_resume [simp]: "listens (listen_resume idx v s) = listens s"
  by (simp add: listen_resume_def Let_def split_beta split: option.splits)

lemma listens_closing_done [simp]: "listens (closing_done s) = listens s"
  by (simp add: closing_done_def split: option.splits sum.splits prod.splits)

lemma listens_finishInterview_v [simp]: "listens (finishInterview_v s) = listens s"
  by (simp add: finishInterview_v_def Let_def split_beta split: option.splits)

lemma listens_ok_listenForAnswer: "listens_ok s \<Longrightarrow> listens_ok (listenForAnswer idx s)"
  by (cases "next_setup s")
     (simp_all add: listenForAnswer_def Let_def listens_ok_def listen_ok_def showMic_def)

lemma listens_ok_same: "listens t = listens s \<Longrightarrow> listens_ok t = listens_ok s"
  by (simp add: listens_ok_def)

lemma listens_ok_askQuestion_v: "listens_ok s \<Longrightarrow> listens_ok (askQuestion_v idx s)"
proof -
  assume a: "listens_ok s"
  have b: "listens_ok (listenForAnswer idx u)" if "listens u = listens s" for u
    using that a listens_ok_listenForAnswer listens_ok_same by blast
  have c: "listens_ok u" if "listens u = listens s" for u
    using that a listens_ok_same by blast
  show ?thesis
  proof (cases "idx \<ge> length (questions_v s)")
    case True
    then show ?thesis by (simp add: askQuestion_v_def Let_def c)
  next
    case False
    then show ?thesis
      by (simp add: askQuestion_v_def Let_def split_beta b c split: option.splits)
  qed
qed

lemma listens_ok_settle_v: "listens_ok s \<Longrightarrow> listens_ok (settle_v i outcome s)"
proof -
  assume a: "listens_ok s"
  let ?s1 = "speak_resume outcome (s\<lparr>races_v := (races_v s)[i := (races_v s ! i)\<lparr>rc_open := False\<rparr>]\<rparr>)"
  have l: "listens ?s1 = listens s" by simp
  then have ok: "listens_ok ?s1" using a listens_ok_same by blast
  show ?thesis
  proof (cases "rc_kind (races_v s ! i)")
    case VWelcome
    then show ?thesis using listens_ok_askQuestion_v [OF ok] by (simp add: settle_v_def Let_def)
  next
    case (VQuestion idx)
    then show ?thesis using listens_ok_listenForAnswer [OF ok] by (simp add: settle_v_def Let_def)
  next
    case (VAck idx)
    then show ?thesis using ok listens_ok_same [of "ack_done idx ?s1" ?s1]
      by (simp add: settle_v_def Let_def)
  next
    case VClosing
    then show ?thesis using ok listens_ok_same [of "closing_done ?s1" ?s1]
      by (simp add: settle_v_def Let_def)
  qed
qed

lemma listens_ok_on_sdk_callback_v: "listens_ok s \<Longrightarrow> listens_ok (on_sdk_callback_v i cb s)"
proof -
  assume a: "listens_ok s"
  have "listens_ok (settle_v i outcome u)" "listens_ok u" if "listens u = listens s" for u outcome
    using that a listens_ok_settle_v listens_ok_same by blast+
  then show ?thesis using a
    by (simp add: on_sdk_callback_v_def Let_def split_beta split: option.splits)
qed

lemma listens_ok_on_timer_v: "listens_ok s \<Longrightarrow> listens_ok (on_timer_v i s)"
proof -
  assume a: "listens_ok s"
  have "listens_ok (settle_v i outcome u)" "listens_ok u" if "listens u = listens s" for u outcome
    using that a listens_ok_settle_v listens_ok_same by blast+
  then show ?thesis using a
    by (simp add: on_timer_v_def Let_def)
qed

lemma listens_ok_resolve:
  assumes "listens_ok s" "j < length (listens s)"
  shows "listens_ok (resolve_listen j v (showMic False (s\<lparr>listens := (listens s)[j := x]\<rparr>)))"
proof -
  define t where "t = showMic False (s\<lparr>listens := (listens s)[j := x]\<rparr>)"
  have lt: "listens t = (listens s)[j := x]"
    by (simp add: t_def)
  have all: "list_all listen_ok (listens s)" using assms(1) by (simp add: listens_ok_def)
  have upd: "list_all listen_ok ((listens s)[j := y])" if "listen_ok y" for y
    using all that set_update_subset_insert [of "listens s" j y] by (auto simp: list_all_iff)
  have "listens_ok (resolve_listen j v t)"
  proof (cases "l_open (listens t ! j)")
    case True
    have "listens (resolve_listen j v t) = (listens t)[j := (listens t ! j)\<lparr>l_open := False\<rparr>]"
      using True by (simp add: resolve_listen_def)
    also have "\<dots> = (listens s)[j := x\<lparr>l_open := False\<rparr>]"
      using assms(2) by (simp add: lt)
    finally show ?thesis
      using upd [of "x\<lparr>l_open := False\<rparr>"] by (simp add: listens_ok_def listen_ok_def)
  next
    case False
    then have "listen_ok x" using assms(2) by (simp add: lt listen_ok_def)
    then show ?thesis using False upd [of x] by (simp add: resolve_listen_def listens_ok_def lt)
  qed
  then show ?thesis by (simp add: t_def)
qed

lemma listens_ok_listen_events:
  assumes "listens_ok s"
  shows "listens_ok (on_recognizer_result j reason txt s)"
    and "listens_ok (on_recognizer_error j err s)"
    and "listens_ok (on_listen_timer j s)"
  using assms listens_ok_resolve [OF assms, of j]
  by (simp_all add: on_recognizer_result_def on_recognizer_error_def on_listen_timer_def Let_def)

lemma listens_ok_on_delay_v: "listens_ok s \<Longrightarrow> listens_ok (on_delay_v s)"
proof -
  assume a: "listens_ok s"
  have "listens_ok (askQuestion_v n u)" if "listens u = listens s" for u n
    using that a listens_ok_askQuestion_v listens_ok_same by blast
  then show ?thesis using a by (simp add: on_delay_v_def split: list.splits)
qed

lemma listens_ok_on_ice_v: "listens_ok s \<Longrightarrow> listens_ok (on_ice_v st s)"
  by (simp add: on_ice_v_def listens_ok_def split: option.splits del: run_effects_v.simps)

lemma listens_ok_step_v: "listens_ok s \<Longrightarrow> listens_ok (step_v s e)"
  by (cases e)
     (simp_all add: step_v_def listens_ok_on_sdk_callback_v listens_ok_on_timer_v
        listens_ok_listen_events listens_ok_on_delay_v listens_ok_on_ice_v)

lemma listens_ok_run_v: "listens_ok s \<Longrightarrow> listens_ok (run_v s evs)"
  unfolding run_v_def
  by (induction evs arbitrary: s) (simp_all add: listens_ok_step_v)

lemma listens_ok_startInterview_v: "listens_ok s \<Longrightarrow> listens_ok (startInterview_v s)"
proof -
  assume a: "listens_ok s"
  have b: "listens_ok (askQuestion_v 0 u)" if "listens u = listens s" for u
    using that a listens_ok_askQuestion_v listens_ok_same by blast
  have c: "listens_ok u" if "listens u = listens s" for u
    using that a listens_ok_same by blast
  show ?thesis
    by (simp add: startInterview_v_def split_beta b c split: option.splits)
qed

lemma listens_ok_init_v: "listens_ok (init_v env (constructor_v c sc r))"
proof -
  have z: "listens_ok u" if "listens u = []" for u
    using that by (simp add: listens_ok_def)
  have st: "listens_ok (startInterview_v u)" if "listens u = []" for u
    using that z listens_ok_startInterview_v by blast
  have ic: "listens (init_catch_v err u) = listens u" for err u
    by (simp add: init_catch_v_def logged_v_def)
  show ?thesis
    by (simp add: init_v_def Let_def split_beta z st ic constructor_v_def
        split: sum.splits option.splits)
qed

lemma listens_ok_reachable: "listens_ok (run_v (init_v env (constructor_v c sc r)) evs)"
  by (rule listens_ok_run_v) (rule listens_ok_init_v)

lemma speak_v_accepted:
  "\<not> speak_refused_v s \<Longrightarrow>
     speak_v k t s =
       (add_race_v \<lparr>rc_kind = k, rc_open = True, rc_speaking = True, rc_timer = True\<rparr>
          (logged_v (Av (SpeakTextAsync t)) (onSpeakStart_v (logged_v (Av OnSpeakStart)
             (s\<lparr>avatar_v := Some ((the (avatar_v s))\<lparr>isSpeaking := True\<rparr>)\<rparr>)))), None)"
  by (auto simp: speak_v_def speak_refused_v_def speak_def Let_def callback_v_def
      split: option.splits)

lemma listen_resume_fields:
  "transcript (listen_resume idx v s) = (if v = [] then transcript s else v)"
  "questions_v (listen_resume idx v s) = questions_v s"
  "currentIdx_v (listen_resume idx v s) = currentIdx_v s"
  "speechToken_v (listen_resume idx v s) = speechToken_v s"
  "region_v (listen_resume idx v s) = region_v s"
  by (auto simp: listen_resume_def Let_def speak_v_def speak_def callback_v_defs add_race_v_def
      speak_resume_def ack_done_def split: option.splits sum.splits)

lemma speak_refused_v_showTranscript: "speak_refused_v (if v \<noteq> [] then showTranscript v s else s) = speak_refused_v s"
  by simp

lemma listen_resume_ack:
  "\<not> speak_refused_v s \<Longrightarrow>
     races_v (listen_resume idx v s) =
       races_v s @ [\<lparr>rc_kind = VAck idx, rc_open = True, rc_speaking = True, rc_timer = True\<rparr>]
     \<and> log_v (listen_resume idx v s) = log_v s @ [Av OnSpeakStart, Av (SpeakTextAsync (response_for idx))]
     \<and> delays_v (listen_resume idx v s) = delays_v s"
  "speak_refused_v s \<Longrightarrow> delays_v (listen_resume idx v s) = delays_v s @ [idx]"
proof -
  define s1 where "s1 = (if v \<noteq> [] then showTranscript v s else s)"
  have r: "speak_refused_v s1 = speak_refused_v s" by (simp add: s1_def)
  have f: "races_v s1 = races_v s" "log_v s1 = log_v s" "delays_v s1 = delays_v s"
    by (simp_all add: s1_def showTranscript_def)
  have eq: "listen_resume idx v s =
      (case snd (speak_v (VAck idx) (response_for idx) s1) of
         None \<Rightarrow> fst (speak_v (VAck idx) (response_for idx) s1)
       | Some err \<Rightarrow> ack_done idx (speak_resume (Inl err) (fst (speak_v (VAck idx) (response_for idx) s1))))"
    unfolding listen_resume_def Let_def s1_def by (simp add: split_beta)
  show "\<not> speak_refused_v s \<Longrightarrow>
     races_v (listen_resume idx v s) =
       races_v s @ [\<lparr>rc_kind = VAck idx, rc_open = True, rc_speaking = True, rc_timer = True\<rparr>]
     \<and> log_v (listen_resume idx v s) = log_v s @ [Av OnSpeakStart, Av (SpeakTextAsync (response_for idx))]
     \<and> delays_v (listen_resume idx v s) = delays_v s"
    using r f by (simp add: eq speak_v_accepted add_race_v_def logged_v_def onSpeakStart_v_def showMic_def)
  assume "speak_refused_v s"
  then have rf: "speak_refused_v s1" using r by simp
  then obtain err where e: "snd (speak_v (VAck idx) (response_for idx) s1) = Some err"
    using speak_v_ops(2) [of "VAck idx" "response_for idx" s1] by (cases "snd (speak_v (VAck idx) (response_for idx) s1)") auto
  have "delays_v (fst (speak_v (VAck idx) (response_for idx) s1)) = delays_v s1"
    by (simp add: speak_v_def Let_def split_beta add_race_v_def split: option.splits sum.splits)
  then show "delays_v (listen_resume idx v s) = delays_v s @ [idx]"
    using e f by (simp add: eq ack_done_def speak_resume_def logged_v_def)
qed

subsection \<open>The first steps of a session of the speech-input controller\<close>

lemma settle_v_extends:
  "extends (s\<lparr>races_v := (races_v s)[i := (races_v s ! i)\<lparr>rc_open := False\<rparr>]\<rparr>) (settle_v i outcome s)"
proof (cases "rc_kind (races_v s ! i)")
  case VWelcome
  then show ?thesis using extends_trans [OF extends_simple(4) extends_askQuestion_v]
    by (simp add: settle_v_def Let_def)
next
  case (VQuestion idx)
  then show ?thesis using extends_trans [OF extends_simple(4) extends_listenForAnswer]
    by (simp add: settle_v_def Let_def)
next
  case (VAck idx)
  then show ?thesis using extends_trans [OF extends_simple(4) extends_simple(5)]
    by (simp add: settle_v_def Let_def)
next
  case VClosing
  then show ?thesis using extends_trans [OF extends_simple(4) extends_closing_done]
    by (simp add: settle_v_def Let_def)
qed

lemma on_timer_v_keeps_request:
  assumes "i < length (races_v s)" "rc_timer (races_v s ! i)" "rc_open (races_v s ! i)"
  shows "races_v (on_timer_v i s) ! i = (races_v s ! i)\<lparr>rc_timer := False, rc_open := False\<rparr>"
proof -
  define s1 where "s1 = s\<lparr>races_v := (races_v s)[i := (races_v s ! i)\<lparr>rc_timer := False\<rparr>]\<rparr>"
  define s0 where "s0 = s1\<lparr>races_v := (races_v s1)[i := (races_v s1 ! i)\<lparr>rc_open := False\<rparr>]\<rparr>"
  have eq: "on_timer_v i s = settle_v i (Inl ''timeout'') s1"
    using assms unfolding s1_def by (simp add: on_timer_v_def Let_def)
  have "extends s0 (settle_v i (Inl ''timeout'') s1)" unfolding s0_def by (rule settle_v_extends)
  then have t: "take (length (races_v s0)) (races_v (on_timer_v i s)) = races_v s0"
    by (simp add: extends_def eq)
  have len: "i < length (races_v s0)" using assms(1) by (simp add: s0_def s1_def)
  have "races_v (on_timer_v i s) ! i = take (length (races_v s0)) (races_v (on_timer_v i s)) ! i"
    using len by simp
  then have "races_v (on_timer_v i s) ! i = races_v s0 ! i" by (simp only: t)
  then show ?thesis using assms(1) by (simp add: s0_def s1_def)
qed


lemma boot_v_glance:
  "glance_v boot_v =
     (0, [], False,
      [\<lparr>rc_kind = VWelcome, rc_open = True, rc_speaking = True, rc_timer = True\<rparr>],
      [], [], False, [], 0)"
  by code_simp

lemma welcome_timeout_glance:
  "glance_v (step_v boot_v (VTimerFired 0)) =
     (0, [], False,
      [\<lparr>rc_kind = VWelcome, rc_open = False, rc_speaking = True, rc_timer = False\<rparr>,
       \<lparr>rc_kind = VQuestion 0, rc_open = True, rc_speaking = True, rc_timer = True\<rparr>],
      [], [], False, [0], 0)"
  by code_simp

lemma listening_first_glance:
  "glance_v listening_first =
     (0, [], True,
      [\<lparr>rc_kind = VWelcome, rc_open = False, rc_speaking = False, rc_timer = True\<rparr>,
       \<lparr>rc_kind = VQuestion 0, rc_open = False, rc_speaking = False, rc_timer = True\<rparr>],
      [\<lparr>l_idx = 0, l_open = True, l_recognizer = RecognizerOpen, l_timer = True, l_callback = True\<rparr>],
      [], False, [0], 0)"
  by code_simp

lemma listen_timeout_glance:
  "glance_v (step_v listening_first (ListenTimer 0)) =
     (0, [], False,
      [\<lparr>rc_kind = VWelcome, rc_open = False, rc_speaking = False, rc_timer = True\<rparr>,
       \<lparr>rc_kind = VQuestion 0, rc_open = False, rc_speaking = False, rc_timer = True\<rparr>,
       \<lparr>rc_kind = VAck 0, rc_open = True, rc_speaking = True, rc_timer = True\<rparr>],
      [\<lparr>l_idx = 0, l_open = False, l_recognizer = RecognizerClosed, l_timer = False, l_callback = True\<rparr>],
      [], False, [0], 0)"
  by code_simp

lemma rounds_equal:
  "run_v boot_v (one_round ''I plan ahead'') = run_v boot_v (one_round ''I ask my manager'')"
  by code_simp

section \<open>Speak and listen requests in sequence\<close>

text \<open>
  C6, as the claim states it, does not hold: the claim wants no new speak request while
  an earlier one is pending, also after the earlier one's timer has fired with the speak
  promise unsettled. In the session below the welcome is being spoken; its 30 s timer
  fires; the speech of the welcome is still outstanding at the SDK, and the same step
  issues the speech of the first question.
\<close>

theorem second_speak_while_first_outstanding:
  "length (races_v boot_v) = 1 \<and> rc_kind (races_v boot_v ! 0) = VWelcome
   \<and> rc_speaking (races_v boot_v ! 0)
   \<and> length (races_v (step_v boot_v (VTimerFired 0))) = 2
   \<and> rc_speaking (races_v (step_v boot_v (VTimerFired 0)) ! 0)
   \<and> rc_kind (races_v (step_v boot_v (VTimerFired 0)) ! 1) = VQuestion 0
   \<and> rc_speaking (races_v (step_v boot_v (VTimerFired 0)) ! 1)"
  using boot_v_glance welcome_timeout_glance by (simp add: glance_v_def)

text \<open>
  C6, amended. The speech-input controller: in every state that a session reaches
  from \<open>init\<close>, at most one bounded wait (a speak raced against its timer, or a listen,
  or the delay before the next question) is open, and a step that issues a new speak
  or listen request has settled the wait that was open before it. The multiple-choice
  controller: the same holds in every session in which no speech ends after its own
  timer has fired; there at most one wait (a speak raced against its timer, or the
  delay after an accepted answer) is open, and a step that issues a speak request has
  settled every race before it. In both controllers settled does not mean finished at
  the SDK: the timer of a speak request closes the wait and leaves the speech
  outstanding, so the next request can be issued while the SDK is still speaking the
  previous one. In the speech-input controller the order comes from the chain of
  awaits of \<open>_askQuestion\<close>, it has no \<open>answerLocked\<close> field; in the multiple-choice
  controller \<open>answerLocked\<close> is true while a wait is open, and a click while it is true
  changes nothing, so no click starts a second chain. What follows
  the late end of a speech in the multiple-choice controller is not part of this
  statement.
\<close>

theorem one_wait_at_a_time:
  "open_ops (run_v (init_v env (constructor_v c sc r)) evs) \<le> 1
   \<and> (issued (run_v (init_v env (constructor_v c sc r)) evs)
         (step_v (run_v (init_v env (constructor_v c sc r)) evs) e) \<longrightarrow>
       earlier_settled (run_v (init_v env (constructor_v c sc r)) evs)
         (step_v (run_v (init_v env (constructor_v c sc r)) evs) e))
   \<and> (i < length (races_v s) \<and> rc_timer (races_v s ! i) \<and> rc_open (races_v s ! i) \<longrightarrow>
        races_v (on_timer_v i s) ! i = (races_v s ! i)\<lparr>rc_timer := False, rc_open := False\<rparr>)
   \<and> (punctual (init env (constructor c r)) evc \<longrightarrow>
        open_waits (run (init env (constructor c r)) evc) \<le> 1
        \<and> (0 < open_waits (run (init env (constructor c r)) evc) \<longrightarrow>
             answerLocked (run (init env (constructor c r)) evc))
        \<and> (\<not> stale (run (init env (constructor c r)) evc) ec
             \<and> speak_issued (run (init env (constructor c r)) evc)
                 (step (run (init env (constructor c r)) evc) ec) \<longrightarrow>
            earlier_closed (run (init env (constructor c r)) evc)
              (step (run (init env (constructor c r)) evc) ec)))
   \<and> (answerLocked t \<longrightarrow> step t (Click k) = t)
   \<and> (j < length (races t) \<and> rc_timer (races t ! j) \<and> rc_open (races t ! j) \<longrightarrow>
        races (on_timer j t) ! j = (races t ! j)\<lparr>rc_timer := False, rc_open := False\<rparr>)"
proof -
  have 1: "open_ops (run_v (init_v env (constructor_v c sc r)) evs) \<le> 1"
    using run_v_ops [of "init_v env (constructor_v c sc r)" evs] init_v_ops [of env c sc r]
    by simp
  have 2: "issued (run_v (init_v env (constructor_v c sc r)) evs)
         (step_v (run_v (init_v env (constructor_v c sc r)) evs) e) \<longrightarrow>
       earlier_settled (run_v (init_v env (constructor_v c sc r)) evs)
         (step_v (run_v (init_v env (constructor_v c sc r)) evs) e)"
    using step_v_issue [OF 1] by blast
  have 3: "i < length (races_v s) \<and> rc_timer (races_v s ! i) \<and> rc_open (races_v s ! i) \<longrightarrow>
        races_v (on_timer_v i s) ! i = (races_v s ! i)\<lparr>rc_timer := False, rc_open := False\<rparr>"
    using on_timer_v_keeps_request by blast
  have 4: "punctual (init env (constructor c r)) evc \<longrightarrow>
        open_waits (run (init env (constructor c r)) evc) \<le> 1
        \<and> (0 < open_waits (run (init env (constructor c r)) evc) \<longrightarrow>
             answerLocked (run (init env (constructor c r)) evc))
        \<and> (\<not> stale (run (init env (constructor c r)) evc) ec
             \<and> speak_issued (run (init env (constructor c r)) evc)
                 (step (run (init env (constructor c r)) evc) ec) \<longrightarrow>
            earlier_closed (run (init env (constructor c r)) evc)
              (step (run (init env (constructor c r)) evc) ec))"
  proof
    assume "punctual (init env (constructor c r)) evc"
    then have w: "wait_ok (run (init env (constructor c r)) evc)" by (rule wait_ok_reachable)
    then have "open_waits (run (init env (constructor c r)) evc) \<le> 1"
      "0 < open_waits (run (init env (constructor c r)) evc) \<longrightarrow>
         answerLocked (run (init env (constructor c r)) evc)"
      by (simp_all add: wait_ok_def)
    then show "open_waits (run (init env (constructor c r)) evc) \<le> 1
        \<and> (0 < open_waits (run (init env (constructor c r)) evc) \<longrightarrow>
             answerLocked (run (init env (constructor c r)) evc))
        \<and> (\<not> stale (run (init env (constructor c r)) evc) ec
             \<and> speak_issued (run (init env (constructor c r)) evc)
                 (step (run (init env (constructor c r)) evc) ec) \<longrightarrow>
            earlier_closed (run (init env (constructor c r)) evc)
              (step (run (init env (constructor c r)) evc) ec))"
      using step_wait_ok(2) [OF w] by blast
  qed
  have 6: "answerLocked t \<longrightarrow> step t (Click k) = t"
    by (simp add: step_def on_click_fields(1))
  have 5: "j < length (races t) \<and> rc_timer (races t ! j) \<and> rc_open (races t ! j) \<longrightarrow>
        races (on_timer j t) ! j = (races t ! j)\<lparr>rc_timer := False, rc_open := False\<rparr>"
    using on_timer_keeps_request by blast
  show ?thesis by (intro conjI) (rule 1 2 3 4 6 5)+
qed

theorem one_wait_at_a_time_witness:
  "issued boot_v (step_v boot_v (VTimerFired 0))
   \<and> earlier_settled boot_v (step_v boot_v (VTimerFired 0))
   \<and> 0 < length (races_v boot_v) \<and> rc_timer (races_v boot_v ! 0) \<and> rc_open (races_v boot_v ! 0)
   \<and> races_v (on_timer_v 0 boot_v) ! 0 = (races_v boot_v ! 0)\<lparr>rc_timer := False, rc_open := False\<rparr>
   \<and> punctual (init good_env (constructor (Inr (), Inr ()) None)) []
   \<and> \<not> stale boot (SdkCallback 0 completed)
   \<and> speak_issued boot (step boot (SdkCallback 0 completed))
   \<and> earlier_closed boot (step boot (SdkCallback 0 completed))
   \<and> 0 < open_waits boot \<and> answerLocked boot \<and> step boot (Click 1) = boot
   \<and> 0 < length (races boot) \<and> rc_timer (races boot ! 0) \<and> rc_open (races boot ! 0)
   \<and> races (on_timer 0 boot) ! 0 = (races boot ! 0)\<lparr>rc_timer := False, rc_open := False\<rparr>"
proof -
  have r: "run_v (init_v good_env (constructor_v (Inr (), Inr ()) [] None)) [] = boot_v"
    "run (init good_env (constructor (Inr (), Inr ()) None)) [] = boot"
    by (simp_all add: run_v_def boot_v_def run_def boot_def)
  have i: "issued boot_v (step_v boot_v (VTimerFired 0))"
    using boot_v_glance welcome_timeout_glance by (simp add: glance_v_def issued_def)
  have h: "0 < length (races_v boot_v) \<and> rc_timer (races_v boot_v ! 0) \<and> rc_open (races_v boot_v ! 0)"
    using boot_v_glance by (simp add: glance_v_def)
  have p: "punctual (init good_env (constructor (Inr (), Inr ()) None)) []" by simp
  have k: "\<not> stale boot (SdkCallback 0 completed)"
    "speak_issued boot (step boot (SdkCallback 0 completed))"
    using asking_first_waits(4,5) by (simp_all add: asking_first_boot)
  have g: "0 < length (races boot) \<and> rc_timer (races boot ! 0) \<and> rc_open (races boot ! 0)"
    using boot_eval by simp
  note T = one_wait_at_a_time [of good_env "(Inr (), Inr ())" "[]" None "[]" "VTimerFired 0" 0 boot_v
        "[]" "SdkCallback 0 completed" boot 1 0]
  have o: "0 < open_waits boot" using boot_eval by (simp add: open_waits_def)
  have 5: "answerLocked boot" using T p o unfolding r by blast
  have 6: "step boot (Click 1) = boot" using T 5 by blast
  have 1: "earlier_settled boot_v (step_v boot_v (VTimerFired 0))"
    using T i unfolding r by blast
  have 2: "races_v (on_timer_v 0 boot_v) ! 0 = (races_v boot_v ! 0)\<lparr>rc_timer := False, rc_open := False\<rparr>"
    using T h by blast
  have 3: "earlier_closed boot (step boot (SdkCallback 0 completed))"
    using T p k unfolding r by blast
  have 4: "races (on_timer 0 boot) ! 0 = (races boot ! 0)\<lparr>rc_timer := False, rc_open := False\<rparr>"
    using T g by blast
  show ?thesis using i h p k g o 1 2 3 4 5 6 by blast
qed

section \<open>Listening for an answer\<close>

text \<open>
  C8, as the claim states it, does not hold: the claim wants the value that the listen
  operation returns to be recorded into an answer record. The speech-input controller
  has no such record, and what the candidate says leaves no trace in its state: two
  rounds of the first question that differ only in the recognised text end in the same
  state.
\<close>

theorem rounds_leave_no_record:
  "run_v boot_v (one_round ''I plan ahead'') = run_v boot_v (one_round ''I ask my manager'')
   \<and> ''I plan ahead'' \<noteq> ''I ask my manager''"
  using rounds_equal by simp

lemma showMic_listens:
  "(showMic b (s\<lparr>listens := ls\<rparr>))\<lparr>listens := ls'\<rparr> = showMic b (s\<lparr>listens := ls'\<rparr>)"
  by (simp add: showMic_def)

text \<open>
  C8, amended. \<open>_listenForAnswer\<close> never rejects. When the set-up succeeds it opens one
  listen with a recogniser, a 30 s timer and the recogniser's callbacks; when the set-up
  throws it hides the microphone and resolves with the empty string at once. The timer
  closes the recogniser and resolves with the empty string; the error callback clears
  the timer, closes the recogniser and resolves with the empty string; the result
  callback does the same and resolves with the recognised text when the reason is
  \<open>RecognizedSpeech\<close> and the text is not empty, and with the empty string otherwise.
  The value is not stored: it is shown as the transcript when it is not empty, and
  nothing else of the state depends on it. Then the controller speaks the
  acknowledgement of the question's index (\<open>RESPONSES[idx]\<close>, or the fixed thanks), and
  when that speech has settled it waits 600 ms and asks the next question.
\<close>

theorem listen_then_acknowledge:
  "(next_setup s = SetupOk \<longrightarrow>
      listenForAnswer idx s =
        logged_v (ListenStart idx)
          ((showMic True (s\<lparr>recognizer_script := tl (recognizer_script s)\<rparr>))
             \<lparr>listens := listens s @
                [\<lparr>l_idx = idx, l_open = True, l_recognizer = RecognizerOpen,
                  l_timer = True, l_callback = True\<rparr>]\<rparr>))
   \<and> (next_setup s \<noteq> SetupOk \<longrightarrow>
        (\<exists>t. listenForAnswer idx s = listen_resume idx [] t \<and> \<not> micVisible t
              \<and> \<not> l_open (last (listens t))))
   \<and> listens_ok (run_v (init_v env (constructor_v c sc r)) evs)
   \<and> (j < length (listens s) \<and> l_open (listens s ! j) \<and> l_timer (listens s ! j) \<longrightarrow>
        on_listen_timer j s =
          listen_resume (l_idx (listens s ! j)) []
            (showMic False (s\<lparr>listens := (listens s)[j := (listens s ! j)
               \<lparr>l_timer := False, l_recognizer := RecognizerClosed, l_open := False\<rparr>]\<rparr>)))
   \<and> (j < length (listens s) \<and> l_open (listens s ! j) \<and> l_callback (listens s ! j) \<longrightarrow>
        on_recognizer_result j reason txt s =
          listen_resume (l_idx (listens s ! j))
            (if reason = RecognizedSpeech \<and> txt \<noteq> [] then txt else [])
            (showMic False (s\<lparr>listens := (listens s)[j := (listens s ! j)
               \<lparr>l_timer := False, l_recognizer := RecognizerClosed, l_callback := False,
                l_open := False\<rparr>]\<rparr>))
        \<and> on_recognizer_error j err s =
          listen_resume (l_idx (listens s ! j)) []
            (showMic False (s\<lparr>listens := (listens s)[j := (listens s ! j)
               \<lparr>l_timer := False, l_recognizer := RecognizerClosed, l_callback := False,
                l_open := False\<rparr>]\<rparr>)))
   \<and> transcript (listen_resume idx v s) = (if v = [] then transcript s else v)
   \<and> questions_v (listen_resume idx v s) = questions_v s
   \<and> currentIdx_v (listen_resume idx v s) = currentIdx_v s
   \<and> speechToken_v (listen_resume idx v s) = speechToken_v s
   \<and> region_v (listen_resume idx v s) = region_v s
   \<and> (\<not> speak_refused_v s \<longrightarrow>
        races_v (listen_resume idx v s) =
          races_v s @ [\<lparr>rc_kind = VAck idx, rc_open = True, rc_speaking = True, rc_timer = True\<rparr>]
        \<and> log_v (listen_resume idx v s) =
            log_v s @ [Av OnSpeakStart, Av (SpeakTextAsync (response_for idx))]
        \<and> delays_v (listen_resume idx v s) = delays_v s)
   \<and> (speak_refused_v s \<longrightarrow> delays_v (listen_resume idx v s) = delays_v s @ [idx])
   \<and> (rc_kind (races_v s ! i) = VAck idx \<longrightarrow>
        settle_v i outcome s =
          ack_done idx (speak_resume outcome
            (s\<lparr>races_v := (races_v s)[i := (races_v s ! i)\<lparr>rc_open := False\<rparr>]\<rparr>))
        \<and> delays_v (settle_v i outcome s) = delays_v s @ [idx])
   \<and> (delays_v s = idx # rest \<longrightarrow> on_delay_v s = askQuestion_v (idx + 1) (s\<lparr>delays_v := rest\<rparr>))
   \<and> map response_for [0, 1, 2, 3] = RESPONSES"
proof -
  have A: "next_setup s = SetupOk \<longrightarrow>
      listenForAnswer idx s =
        logged_v (ListenStart idx)
          ((showMic True (s\<lparr>recognizer_script := tl (recognizer_script s)\<rparr>))
             \<lparr>listens := listens s @
                [\<lparr>l_idx = idx, l_open = True, l_recognizer = RecognizerOpen,
                  l_timer = True, l_callback = True\<rparr>]\<rparr>)"
    by (simp add: listenForAnswer_def Let_def)
  have B: "next_setup s \<noteq> SetupOk \<longrightarrow>
        (\<exists>t. listenForAnswer idx s = listen_resume idx [] t \<and> \<not> micVisible t
              \<and> \<not> l_open (last (listens t)))"
    by (cases "next_setup s") (auto simp: listenForAnswer_def Let_def showMic_def)
  have C: "listens_ok (run_v (init_v env (constructor_v c sc r)) evs)"
    by (rule listens_ok_reachable)
  have D: "j < length (listens s) \<and> l_open (listens s ! j) \<and> l_timer (listens s ! j) \<longrightarrow>
        on_listen_timer j s =
          listen_resume (l_idx (listens s ! j)) []
            (showMic False (s\<lparr>listens := (listens s)[j := (listens s ! j)
               \<lparr>l_timer := False, l_recognizer := RecognizerClosed, l_open := False\<rparr>]\<rparr>))"
    by (simp add: on_listen_timer_def Let_def resolve_listen_def showMic_listens)
  have E: "j < length (listens s) \<and> l_open (listens s ! j) \<and> l_callback (listens s ! j) \<longrightarrow>
        on_recognizer_result j reason txt s =
          listen_resume (l_idx (listens s ! j))
            (if reason = RecognizedSpeech \<and> txt \<noteq> [] then txt else [])
            (showMic False (s\<lparr>listens := (listens s)[j := (listens s ! j)
               \<lparr>l_timer := False, l_recognizer := RecognizerClosed, l_callback := False,
                l_open := False\<rparr>]\<rparr>))
        \<and> on_recognizer_error j err s =
          listen_resume (l_idx (listens s ! j)) []
            (showMic False (s\<lparr>listens := (listens s)[j := (listens s ! j)
               \<lparr>l_timer := False, l_recognizer := RecognizerClosed, l_callback := False,
                l_open := False\<rparr>]\<rparr>))"
    by (simp add: on_recognizer_result_def on_recognizer_error_def Let_def resolve_listen_def
        showMic_listens)
  have F: "rc_kind (races_v s ! i) = VAck idx \<longrightarrow>
        settle_v i outcome s =
          ack_done idx (speak_resume outcome
            (s\<lparr>races_v := (races_v s)[i := (races_v s ! i)\<lparr>rc_open := False\<rparr>]\<rparr>))
        \<and> delays_v (settle_v i outcome s) = delays_v s @ [idx]"
    by (simp add: settle_v_def Let_def ack_done_def speak_resume_def logged_v_def split: sum.splits)
  have G: "delays_v s = idx # rest \<longrightarrow> on_delay_v s = askQuestion_v (idx + 1) (s\<lparr>delays_v := rest\<rparr>)"
    by (simp add: on_delay_v_def)
  have H: "map response_for [0, 1, 2, 3] = RESPONSES"
    by (simp add: response_for_def RESPONSES_def)
  note I = listen_resume_fields [of idx v s]
  have J: "\<not> speak_refused_v s \<longrightarrow>
        races_v (listen_resume idx v s) =
          races_v s @ [\<lparr>rc_kind = VAck idx, rc_open = True, rc_speaking = True, rc_timer = True\<rparr>]
        \<and> log_v (listen_resume idx v s) =
            log_v s @ [Av OnSpeakStart, Av (SpeakTextAsync (response_for idx))]
        \<and> delays_v (listen_resume idx v s) = delays_v s"
    using listen_resume_ack(1) by blast
  have K: "speak_refused_v s \<longrightarrow> delays_v (listen_resume idx v s) = delays_v s @ [idx]"
    using listen_resume_ack(2) by blast
  show ?thesis
    by (intro conjI) (rule A B C D E I J K F G H)+
qed

theorem listen_then_acknowledge_witness:
  "0 < length (listens listening_first) \<and> l_open (listens listening_first ! 0)
   \<and> l_timer (listens listening_first ! 0) \<and> l_callback (listens listening_first ! 0)
   \<and> on_listen_timer 0 listening_first =
       listen_resume 0 []
         (showMic False (listening_first\<lparr>listens := (listens listening_first)[0 := (listens listening_first ! 0)
            \<lparr>l_timer := False, l_recognizer := RecognizerClosed, l_open := False\<rparr>]\<rparr>))
   \<and> on_recognizer_error 0 ''no microphone'' listening_first =
       listen_resume 0 []
         (showMic False (listening_first\<lparr>listens := (listens listening_first)[0 := (listens listening_first ! 0)
            \<lparr>l_timer := False, l_recognizer := RecognizerClosed, l_callback := False,
             l_open := False\<rparr>]\<rparr>))
   \<and> \<not> speak_refused_v listening_first
   \<and> log_v (listen_resume 0 [] listening_first) =
       log_v listening_first @ [Av OnSpeakStart, Av (SpeakTextAsync (response_for 0))]"
proof -
  have h: "0 < length (listens listening_first)" "l_open (listens listening_first ! 0)"
    "l_timer (listens listening_first ! 0)" "l_callback (listens listening_first ! 0)"
    "\<not> speak_refused_v listening_first"
    using listening_first_glance by (simp_all add: glance_v_def)
  note T = listen_then_acknowledge [where s = listening_first and idx = 0 and j = 0 and v = "[]"
        and err = "''no microphone''"]
  have 1: "on_listen_timer 0 listening_first =
       listen_resume 0 []
         (showMic False (listening_first\<lparr>listens := (listens listening_first)[0 := (listens listening_first ! 0)
            \<lparr>l_timer := False, l_recognizer := RecognizerClosed, l_open := False\<rparr>]\<rparr>))"
    using T h listening_first_glance by (simp add: glance_v_def)
  have 2: "on_recognizer_error 0 ''no microphone'' listening_first =
       listen_resume 0 []
         (showMic False (listening_first\<lparr>listens := (listens listening_first)[0 := (listens listening_first ! 0)
            \<lparr>l_timer := False, l_recognizer := RecognizerClosed, l_callback := False,
             l_open := False\<rparr>]\<rparr>))"
    using T h listening_first_glance by (simp add: glance_v_def)
  have 3: "log_v (listen_resume 0 [] listening_first) =
       log_v listening_first @ [Av OnSpeakStart, Av (SpeakTextAsync (response_for 0))]"
    using T h by simp
  show ?thesis using h 1 2 3 by simp
qed

section \<open>Initialisation that fails\<close>

lemma token_chain_cases:
  "token_chain what (FetchFailed m) = Inl m"
  "token_chain what (FetchResponse False st txt body) =
     Inl (what @ '' token error '' @ String_nat st @ '': '' @ txt)"
  "token_chain what (FetchResponse True st txt body) = body"
  "token_chain_v what (FetchFailed m) = Inl m"
  "token_chain_v what (FetchResponse False st txt body) = Inl (what @ '' token error '' @ String_nat st)"
  "token_chain_v what (FetchResponse True st txt body) = body"
  by (simp_all add: token_chain_def token_chain_v_def)

lemma promise_all2_Inl:
  "(\<exists>m. p = Inl m) \<or> (\<exists>m. q = Inl m) \<Longrightarrow>
     \<exists>err. promise_all2 b p q = Inl err \<and> (p = Inl err \<or> q = Inl err)"
  by (cases p; cases q) (auto simp: promise_all2_def)

lemma init_fetch_failed:
  assumes "promise_all2 (iceRejectsFirst env)
     (token_chain ''Speech'' (speechFetch env)) (token_chain ''ICE'' (iceFetch env)) = Inl err"
  shows "init env s =
      s\<lparr>loadingText := LoadingWarning (if err = [] then ''Unknown error'' else err),
        retryButton := True,
        log := log s @ [Fetch ''/api/getSpeechToken'', Fetch ''/api/getIceToken'', ConsoleErr err]\<rparr>"
  using assms by (simp add: init_def Let_def init_catch_def setLoadingText_def logged_def)

lemma init_parse_failed:
  assumes "token_chain ''Speech'' (speechFetch env) = Inr tok"
    "token_chain ''ICE'' (iceFetch env) = Inr raw" "JSON_parse env raw = Inl err"
  shows "init env s =
      s\<lparr>avatar := Some new_AvatarManager,
        loadingText := LoadingWarning (if err = [] then ''Unknown error'' else err),
        retryButton := True,
        log := log s @ [Fetch ''/api/getSpeechToken'', Fetch ''/api/getIceToken'', ConsoleErr err]\<rparr>"
  using assms
  by (simp add: init_def Let_def init_catch_def setLoadingText_def logged_def promise_all2_def
      connect_def)

lemma init_v_fetch_failed:
  assumes "promise_all2 (iceRejectsFirst env)
     (token_chain_v ''Speech'' (speechFetch env)) (token_chain_v ''ICE'' (iceFetch env)) = Inl err"
  shows "init_v env s =
      s\<lparr>loadingText_v := LoadingWarning (if err = [] then ''Unknown error'' else err),
        retryButton_v := True,
        log_v := log_v s @ [Fetch ''/api/getSpeechToken'', Fetch ''/api/getIceToken'', ConsoleErr err]\<rparr>"
  using assms by (simp add: init_v_def Let_def init_catch_v_def logged_v_def)

lemma init_v_parse_failed:
  assumes "token_chain_v ''Speech'' (speechFetch env) = Inr tok"
    "token_chain_v ''ICE'' (iceFetch env) = Inr raw" "JSON_parse env raw = Inl err"
  shows "init_v env s =
      s\<lparr>speechToken_v := Some tok, avatar_v := Some new_AvatarManager,
        loadingText_v := LoadingWarning (if err = [] then ''Unknown error'' else err),
        retryButton_v := True,
        log_v := log_v s @ [Fetch ''/api/getSpeechToken'', Fetch ''/api/getIceToken'', ConsoleErr err]\<rparr>"
  using assms
  by (simp add: init_v_def Let_def init_catch_v_def logged_v_def promise_all2_def connect_def)

text \<open>Nothing is pending in a state without requests, buttons and delays: every event leaves it as it is.\<close>

lemma idle_step:
  assumes "races s = []" "buttons s = []" "pendingAdvances s = 0"
    "avatar s = None \<or> avatar s = Some new_AvatarManager"
  shows "step s e = s"
  using assms
  by (cases e)
     (auto simp: step_def on_click_def on_sdk_callback_def on_timer_def on_delay_def on_ice_def
        new_AvatarManager_def split: option.splits)

lemma idle_step_v:
  assumes "races_v s = []" "listens s = []" "delays_v s = []"
    "avatar_v s = None \<or> avatar_v s = Some new_AvatarManager"
  shows "step_v s e = s"
  using assms
  by (cases e)
     (auto simp: step_v_def on_sdk_callback_v_def on_timer_v_def on_delay_v_def on_ice_v_def
        on_recognizer_result_def on_recognizer_error_def on_listen_timer_def
        new_AvatarManager_def split: option.splits)


lemma init_failed:
  assumes "token_failure env = Some err"
  shows "init env s =
      s\<lparr>loadingText := LoadingWarning (if err = [] then ''Unknown error'' else err),
        retryButton := True,
        log := log s @ [Fetch ''/api/getSpeechToken'', Fetch ''/api/getIceToken'', ConsoleErr err]\<rparr>
    \<or> init env s =
      s\<lparr>avatar := Some new_AvatarManager,
        loadingText := LoadingWarning (if err = [] then ''Unknown error'' else err),
        retryButton := True,
        log := log s @ [Fetch ''/api/getSpeechToken'', Fetch ''/api/getIceToken'', ConsoleErr err]\<rparr>"
proof (cases "promise_all2 (iceRejectsFirst env)
     (token_chain ''Speech'' (speechFetch env)) (token_chain ''ICE'' (iceFetch env))")
  case (Inl e)
  then have "e = err" using assms by (simp add: token_failure_def)
  then show ?thesis using init_fetch_failed [of env err s] Inl by simp
next
  case (Inr p)
  obtain tok raw where p: "p = (tok, raw)" by (cases p)
  have c: "token_chain ''Speech'' (speechFetch env) = Inr tok" "token_chain ''ICE'' (iceFetch env) = Inr raw"
    using Inr p by (auto simp: promise_all2_def split: sum.splits)
  have "JSON_parse env raw = Inl err"
    using assms Inr p by (simp add: token_failure_def split: sum.splits)
  then show ?thesis using init_parse_failed [OF c, of err s] by simp
qed

lemma init_v_failed:
  assumes "token_failure_v env = Some err"
  shows "init_v env s =
      s\<lparr>loadingText_v := LoadingWarning (if err = [] then ''Unknown error'' else err),
        retryButton_v := True,
        log_v := log_v s @ [Fetch ''/api/getSpeechToken'', Fetch ''/api/getIceToken'', ConsoleErr err]\<rparr>
    \<or> (\<exists>tok. init_v env s =
      s\<lparr>speechToken_v := Some tok, avatar_v := Some new_AvatarManager,
        loadingText_v := LoadingWarning (if err = [] then ''Unknown error'' else err),
        retryButton_v := True,
        log_v := log_v s @ [Fetch ''/api/getSpeechToken'', Fetch ''/api/getIceToken'', ConsoleErr err]\<rparr>)"
proof (cases "promise_all2 (iceRejectsFirst env)
     (token_chain_v ''Speech'' (speechFetch env)) (token_chain_v ''ICE'' (iceFetch env))")
  case (Inl e)
  then have "e = err" using assms by (simp add: token_failure_v_def)
  then show ?thesis using init_v_fetch_failed [of env err s] Inl by simp
next
  case (Inr p)
  obtain tok raw where p: "p = (tok, raw)" by (cases p)
  have c: "token_chain_v ''Speech'' (speechFetch env) = Inr tok"
    "token_chain_v ''ICE'' (iceFetch env) = Inr raw"
    using Inr p by (auto simp: promise_all2_def split: sum.splits)
  have "JSON_parse env raw = Inl err"
    using assms Inr p by (simp add: token_failure_v_def split: sum.splits)
  then show ?thesis using init_v_parse_failed [OF c, of err s] by blast
qed

lemma token_failure_fetch:
  "isl (token_chain ''Speech'' (speechFetch env)) \<or> isl (token_chain ''ICE'' (iceFetch env)) \<Longrightarrow>
     \<exists>err. token_failure env = Some err
        \<and> (token_chain ''Speech'' (speechFetch env) = Inl err
            \<or> token_chain ''ICE'' (iceFetch env) = Inl err)"
  by (cases "token_chain ''Speech'' (speechFetch env)"; cases "token_chain ''ICE'' (iceFetch env)")
     (auto simp: token_failure_def promise_all2_def)

lemma token_failure_v_fetch:
  "isl (token_chain_v ''Speech'' (speechFetch env)) \<or> isl (token_chain_v ''ICE'' (iceFetch env)) \<Longrightarrow>
     \<exists>err. token_failure_v env = Some err
        \<and> (token_chain_v ''Speech'' (speechFetch env) = Inl err
            \<or> token_chain_v ''ICE'' (iceFetch env) = Inl err)"
  by (cases "token_chain_v ''Speech'' (speechFetch env)"; cases "token_chain_v ''ICE'' (iceFetch env)")
     (auto simp: token_failure_v_def promise_all2_def)

lemma token_failure_parse:
  "token_chain ''Speech'' (speechFetch env) = Inr tok \<Longrightarrow>
   token_chain ''ICE'' (iceFetch env) = Inr raw \<Longrightarrow> JSON_parse env raw = Inl err \<Longrightarrow>
     token_failure env = Some err"
  "token_chain_v ''Speech'' (speechFetch env) = Inr tok \<Longrightarrow>
   token_chain_v ''ICE'' (iceFetch env) = Inr raw \<Longrightarrow> JSON_parse env raw = Inl err \<Longrightarrow>
     token_failure_v env = Some err"
  by (simp_all add: token_failure_def token_failure_v_def promise_all2_def)

lemma bad_status_failure:
  "token_failure bad_status_env = Some ''Speech token error 401: Unauthorized''
   \<and> token_failure_v bad_status_env = Some ''Speech token error 401''
   \<and> token_failure bad_json_env = Some ''Unexpected end of JSON input''
   \<and> token_failure_v bad_json_env = Some ''Unexpected end of JSON input''"
  by code_simp

text \<open>
  C7. When a token request fails (the request itself, a status that is not ok) or
  the relay credentials do not parse, \<open>init\<close> of either controller ends in its catch
  branch with the message of the failure: the message is shown in the loading text
  (\<open>Unknown error\<close> for an empty one), the retry button is put up, and the log holds
  the two requests and the error and nothing else, so no peer connection was made, no
  avatar was started and no question was asked. Nothing is left pending from the
  constructor's state: every event leaves the failed state as it is, so nothing
  retries by itself; only a click on the retry button runs \<open>init\<close> again.
\<close>

theorem init_failure_surfaces:
  "(token_failure env = Some err \<longrightarrow>
      loadingText (init env s) = LoadingWarning (if err = [] then ''Unknown error'' else err)
      \<and> retryButton (init env s)
      \<and> log (init env s) =
          log s @ [Fetch ''/api/getSpeechToken'', Fetch ''/api/getIceToken'', ConsoleErr err]
      \<and> races (init env s) = races s \<and> buttons (init env s) = buttons s
      \<and> pendingAdvances (init env s) = pendingAdvances s
      \<and> (avatar (init env s) = avatar s \<or> avatar (init env s) = Some new_AvatarManager)
      \<and> step (init env (constructor c r)) e = init env (constructor c r)
      \<and> retry_click env' (init env s) =
          init env' ((init env s)\<lparr>loadingText := LoadingReconnecting, retryButton := False\<rparr>))
   \<and> (token_failure_v env = Some err \<longrightarrow>
      loadingText_v (init_v env t) = LoadingWarning (if err = [] then ''Unknown error'' else err)
      \<and> retryButton_v (init_v env t)
      \<and> log_v (init_v env t) =
          log_v t @ [Fetch ''/api/getSpeechToken'', Fetch ''/api/getIceToken'', ConsoleErr err]
      \<and> races_v (init_v env t) = races_v t \<and> listens (init_v env t) = listens t
      \<and> delays_v (init_v env t) = delays_v t
      \<and> (avatar_v (init_v env t) = avatar_v t \<or> avatar_v (init_v env t) = Some new_AvatarManager)
      \<and> step_v (init_v env (constructor_v c sc r)) ev = init_v env (constructor_v c sc r))
   \<and> (isl (token_chain ''Speech'' (speechFetch env)) \<or> isl (token_chain ''ICE'' (iceFetch env)) \<longrightarrow>
        (\<exists>m. token_failure env = Some m
           \<and> (token_chain ''Speech'' (speechFetch env) = Inl m
               \<or> token_chain ''ICE'' (iceFetch env) = Inl m)))
   \<and> (isl (token_chain_v ''Speech'' (speechFetch env)) \<or> isl (token_chain_v ''ICE'' (iceFetch env)) \<longrightarrow>
        (\<exists>m. token_failure_v env = Some m
           \<and> (token_chain_v ''Speech'' (speechFetch env) = Inl m
               \<or> token_chain_v ''ICE'' (iceFetch env) = Inl m)))
   \<and> (token_chain ''Speech'' (speechFetch env) = Inr tok \<and> token_chain ''ICE'' (iceFetch env) = Inr raw
        \<and> JSON_parse env raw = Inl err \<longrightarrow> token_failure env = Some err)
   \<and> (token_chain_v ''Speech'' (speechFetch env) = Inr tok \<and> token_chain_v ''ICE'' (iceFetch env) = Inr raw
        \<and> JSON_parse env raw = Inl err \<longrightarrow> token_failure_v env = Some err)
   \<and> token_chain what (FetchFailed m) = Inl m
   \<and> token_chain what (FetchResponse False st txt body) =
       Inl (what @ '' token error '' @ String_nat st @ '': '' @ txt)
   \<and> token_chain_v what (FetchFailed m) = Inl m
   \<and> token_chain_v what (FetchResponse False st txt body) =
       Inl (what @ '' token error '' @ String_nat st)"
proof -
  have A: "token_failure env = Some err \<longrightarrow>
      loadingText (init env s) = LoadingWarning (if err = [] then ''Unknown error'' else err)
      \<and> retryButton (init env s)
      \<and> log (init env s) =
          log s @ [Fetch ''/api/getSpeechToken'', Fetch ''/api/getIceToken'', ConsoleErr err]
      \<and> races (init env s) = races s \<and> buttons (init env s) = buttons s
      \<and> pendingAdvances (init env s) = pendingAdvances s
      \<and> (avatar (init env s) = avatar s \<or> avatar (init env s) = Some new_AvatarManager)
      \<and> step (init env (constructor c r)) e = init env (constructor c r)
      \<and> retry_click env' (init env s) =
          init env' ((init env s)\<lparr>loadingText := LoadingReconnecting, retryButton := False\<rparr>)"
  proof
    assume f: "token_failure env = Some err"
    have 1: "loadingText (init env s) = LoadingWarning (if err = [] then ''Unknown error'' else err)
      \<and> retryButton (init env s)
      \<and> log (init env s) =
          log s @ [Fetch ''/api/getSpeechToken'', Fetch ''/api/getIceToken'', ConsoleErr err]
      \<and> races (init env s) = races s \<and> buttons (init env s) = buttons s
      \<and> pendingAdvances (init env s) = pendingAdvances s
      \<and> (avatar (init env s) = avatar s \<or> avatar (init env s) = Some new_AvatarManager)"
      using init_failed [OF f, of s] by auto
    have "races (init env (constructor c r)) = [] \<and> buttons (init env (constructor c r)) = []
      \<and> pendingAdvances (init env (constructor c r)) = 0
      \<and> (avatar (init env (constructor c r)) = None
          \<or> avatar (init env (constructor c r)) = Some new_AvatarManager)"
      using init_failed [OF f, of "constructor c r"] by (auto simp: constructor_def)
    then have 2: "step (init env (constructor c r)) e = init env (constructor c r)"
      using idle_step by blast
    have 3: "retry_click env' (init env s) =
          init env' ((init env s)\<lparr>loadingText := LoadingReconnecting, retryButton := False\<rparr>)"
      using 1 by (simp add: retry_click_def)
    show "loadingText (init env s) = LoadingWarning (if err = [] then ''Unknown error'' else err)
      \<and> retryButton (init env s)
      \<and> log (init env s) =
          log s @ [Fetch ''/api/getSpeechToken'', Fetch ''/api/getIceToken'', ConsoleErr err]
      \<and> races (init env s) = races s \<and> buttons (init env s) = buttons s
      \<and> pendingAdvances (init env s) = pendingAdvances s
      \<and> (avatar (init env s) = avatar s \<or> avatar (init env s) = Some new_AvatarManager)
      \<and> step (init env (constructor c r)) e = init env (constructor c r)
      \<and> retry_click env' (init env s) =
          init env' ((init env s)\<lparr>loadingText := LoadingReconnecting, retryButton := False\<rparr>)"
      using 1 2 3 by blast
  qed
  have B: "token_failure_v env = Some err \<longrightarrow>
      loadingText_v (init_v env t) = LoadingWarning (if err = [] then ''Unknown error'' else err)
      \<and> retryButton_v (init_v env t)
      \<and> log_v (init_v env t) =
          log_v t @ [Fetch ''/api/getSpeechToken'', Fetch ''/api/getIceToken'', ConsoleErr err]
      \<and> races_v (init_v env t) = races_v t \<and> listens (init_v env t) = listens t
      \<and> delays_v (init_v env t) = delays_v t
      \<and> (avatar_v (init_v env t) = avatar_v t \<or> avatar_v (init_v env t) = Some new_AvatarManager)
      \<and> step_v (init_v env (constructor_v c sc r)) ev = init_v env (constructor_v c sc r)"
  proof
    assume f: "token_failure_v env = Some err"
    have 1: "loadingText_v (init_v env t) = LoadingWarning (if err = [] then ''Unknown error'' else err)
      \<and> retryButton_v (init_v env t)
      \<and> log_v (init_v env t) =
          log_v t @ [Fetch ''/api/getSpeechToken'', Fetch ''/api/getIceToken'', ConsoleErr err]
      \<and> races_v (init_v env t) = races_v t \<and> listens (init_v env t) = listens t
      \<and> delays_v (init_v env t) = delays_v t
      \<and> (avatar_v (init_v env t) = avatar_v t \<or> avatar_v (init_v env t) = Some new_AvatarManager)"
      using init_v_failed [OF f, of t] by auto
    have "races_v (init_v env (constructor_v c sc r)) = []
      \<and> listens (init_v env (constructor_v c sc r)) = []
      \<and> delays_v (init_v env (constructor_v c sc r)) = []
      \<and> (avatar_v (init_v env (constructor_v c sc r)) = None
          \<or> avatar_v (init_v env (constructor_v c sc r)) = Some new_AvatarManager)"
      using init_v_failed [OF f, of "constructor_v c sc r"] by (auto simp: constructor_v_def)
    then have 2: "step_v (init_v env (constructor_v c sc r)) ev = init_v env (constructor_v c sc r)"
      using idle_step_v by blast
    show "loadingText_v (init_v env t) = LoadingWarning (if err = [] then ''Unknown error'' else err)
      \<and> retryButton_v (init_v env t)
      \<and> log_v (init_v env t) =
          log_v t @ [Fetch ''/api/getSpeechToken'', Fetch ''/api/getIceToken'', ConsoleErr err]
      \<and> races_v (init_v env t) = races_v t \<and> listens (init_v env t) = listens t
      \<and> delays_v (init_v env t) = delays_v t
      \<and> (avatar_v (init_v env t) = avatar_v t \<or> avatar_v (init_v env t) = Some new_AvatarManager)
      \<and> step_v (init_v env (constructor_v c sc r)) ev = init_v env (constructor_v c sc r)"
      using 1 2 by blast
  qed
  have C: "isl (token_chain ''Speech'' (speechFetch env)) \<or> isl (token_chain ''ICE'' (iceFetch env)) \<longrightarrow>
        (\<exists>m. token_failure env = Some m
           \<and> (token_chain ''Speech'' (speechFetch env) = Inl m
               \<or> token_chain ''ICE'' (iceFetch env) = Inl m))"
    using token_failure_fetch by blast
  have D: "isl (token_chain_v ''Speech'' (speechFetch env)) \<or> isl (token_chain_v ''ICE'' (iceFetch env)) \<longrightarrow>
        (\<exists>m. token_failure_v env = Some m
           \<and> (token_chain_v ''Speech'' (speechFetch env) = Inl m
               \<or> token_chain_v ''ICE'' (iceFetch env) = Inl m))"
    using token_failure_v_fetch by blast
  have E: "token_chain ''Speech'' (speechFetch env) = Inr tok \<and> token_chain ''ICE'' (iceFetch env) = Inr raw
        \<and> JSON_parse env raw = Inl err \<longrightarrow> token_failure env = Some err"
    using token_failure_parse(1) by blast
  have F: "token_chain_v ''Speech'' (speechFetch env) = Inr tok \<and> token_chain_v ''ICE'' (iceFetch env) = Inr raw
        \<and> JSON_parse env raw = Inl err \<longrightarrow> token_failure_v env = Some err"
    using token_failure_parse(2) by blast
  show ?thesis
    by (intro conjI) (rule A B C D E F token_chain_cases)+
qed

theorem init_failure_surfaces_witness:
  "token_failure bad_status_env = Some ''Speech token error 401: Unauthorized''
   \<and> loadingText (init bad_status_env (constructor (Inr (), Inr ()) None)) =
       LoadingWarning ''Speech token error 401: Unauthorized''
   \<and> retryButton (init bad_status_env (constructor (Inr (), Inr ()) None))
   \<and> step (init bad_status_env (constructor (Inr (), Inr ()) None)) (TimerFired 0) =
       init bad_status_env (constructor (Inr (), Inr ()) None)
   \<and> token_failure_v bad_json_env = Some ''Unexpected end of JSON input''
   \<and> loadingText_v (init_v bad_json_env (constructor_v (Inr (), Inr ()) [] None)) =
       LoadingWarning ''Unexpected end of JSON input''
   \<and> log_v (init_v bad_json_env (constructor_v (Inr (), Inr ()) [] None)) =
       [Fetch ''/api/getSpeechToken'', Fetch ''/api/getIceToken'',
        ConsoleErr ''Unexpected end of JSON input'']"
proof -
  have f: "token_failure bad_status_env = Some ''Speech token error 401: Unauthorized''"
    "token_failure_v bad_json_env = Some ''Unexpected end of JSON input''"
    using bad_status_failure by blast+
  have l: "log_v (constructor_v (Inr (), Inr ()) [] None) = []"
    by (simp add: constructor_v_def)
  show ?thesis
    using f l
      init_failure_surfaces [where env = bad_status_env
        and err = "''Speech token error 401: Unauthorized''"
        and s = "constructor (Inr (), Inr ()) None" and c = "(Inr (), Inr ())" and r = None
        and e = "TimerFired 0"]
      init_failure_surfaces [where env = bad_json_env
        and err = "''Unexpected end of JSON input''"
        and t = "constructor_v (Inr (), Inr ()) [] None"]
    by simp
qed

end
